theory Spec2Isabelle
  imports Complex_Main
begin

section \<open>Strings\<close>

text \<open>
  A JavaScript string is a sequence of UTF-16 code units. The model uses \<^typ>\<open>string\<close>
  (a list of 8-bit characters), so it covers the documents and queries whose code units
  are below 256 (ASCII and Latin-1); \<open>length\<close> is then JavaScript's \<open>.length\<close>.
\<close>

definition nl :: char where
  "nl = CHR 0x0A"

text \<open>
  The characters matched by \<open>\s\<close> in a regular expression and removed by \<open>trim()\<close>
  (white space and line terminators), as far as they lie below 256: TAB, LF, VT, FF, CR,
  SPACE and NBSP.
\<close>

definition isSpace :: "char \<Rightarrow> bool" where
  "isSpace c = (c = CHR 0x09 \<or> c = CHR 0x0A \<or> c = CHR 0x0B \<or> c = CHR 0x0C
     \<or> c = CHR 0x0D \<or> c = CHR 0x20 \<or> c = CHR 0xA0)"

text \<open>\<open>s.trim()\<close>\<close>

definition trim :: "string \<Rightarrow> string" where
  "trim s = rev (dropWhile isSpace (rev (dropWhile isSpace s)))"

text \<open>\<open>s.split(c)\<close> for a one-character separator: never empty.\<close>

fun splitOn :: "char \<Rightarrow> string \<Rightarrow> string list" where
  "splitOn c [] = [[]]"
| "splitOn c (x # xs) =
     (if x = c then [] # splitOn c xs
      else (x # hd (splitOn c xs)) # tl (splitOn c xs))"

text \<open>
  One match of \<open>/\n\s*\n/\<close> whose first \<open>\n\<close> has just been read: \<open>\s*\<close> is greedy
  and \<open>\n\<close> is itself white space, so the match ends behind the last \<open>\n\<close> of the
  maximal white-space run that follows. The result is the input behind the match, or
  \<open>None\<close> when that run holds no \<open>\n\<close>.
\<close>

definition sepEnd :: "string \<Rightarrow> string option" where
  "sepEnd rest =
     (let ws = takeWhile isSpace rest
      in if nl \<in> set ws
         then Some (rev (takeWhile (\<lambda>c. c \<noteq> nl) (rev ws)) @ dropWhile isSpace rest)
         else None)"

text \<open>
  \<open>content.split(/\n\s*\n/)\<close>: the pieces between the successive leftmost matches; \<open>acc\<close>
  holds the current piece, reversed.
\<close>

function splitParagraphs :: "string \<Rightarrow> string \<Rightarrow> string list" where
  "splitParagraphs acc [] = [rev acc]"
| "splitParagraphs acc (c # rest) =
     (if c = nl
      then (case sepEnd rest of
              Some rem \<Rightarrow> rev acc # splitParagraphs [] rem
            | None \<Rightarrow> splitParagraphs (c # acc) rest)
      else splitParagraphs (c # acc) rest)"
  by pat_completeness auto

termination splitParagraphs
proof (relation "measure (\<lambda>(acc, s). length s)", simp_all)
  fix rest rem
  assume a: "sepEnd rest = Some rem"
  let ?ws = "takeWhile isSpace rest"
  have r: "rem = rev (takeWhile (\<lambda>c. c \<noteq> nl) (rev ?ws)) @ dropWhile isSpace rest"
    using a by (simp add: sepEnd_def Let_def split: if_splits)
  have "length (takeWhile (\<lambda>c. c \<noteq> nl) (rev ?ws)) \<le> length (rev ?ws)"
    by (rule length_takeWhile_le)
  moreover have "length ?ws + length (dropWhile isSpace rest) = length rest"
    by (metis length_append takeWhile_dropWhile_id)
  ultimately show "length rem < Suc (length rest)" using r by simp
qed

section \<open>The chunker (search.ts)\<close>

text \<open>
  \<open>Omit<DocumentChunk, 'embedding'>\<close>: a chunk without its embedding. \<open>id\<close> (a SHA-256
  prefix of path and ordinal), \<open>metadata.file_name\<close>, \<open>metadata.directory\<close> and
  \<open>metadata.indexed_at\<close> come from library calls on the path and the clock and are left out.
  The field \<open>text\<close> is named \<open>chunk_text\<close> here; \<open>file_path\<close> is
  \<open>path.resolve(filePath)\<close>, with \<open>path.resolve\<close> passed in as \<open>resolve\<close>.
\<close>

record ChunkData =
  chunk_text :: string
  file_path :: string
  line_start :: int
  line_end :: int
  chunk_index :: nat
  char_count :: nat

definition createChunk ::
  "(string \<Rightarrow> string) \<Rightarrow> string \<Rightarrow> string \<Rightarrow> int \<Rightarrow> int \<Rightarrow> nat \<Rightarrow> ChunkData" where
  "createChunk resolve txt filePath lineStart lineEnd idx =
     \<lparr> chunk_text = trim txt, file_path = resolve filePath, line_start = lineStart,
       line_end = lineEnd, chunk_index = idx, char_count = length txt \<rparr>"

definition maxChunkSize :: nat where
  "maxChunkSize = 1000"

definition minChunkSize :: nat where
  "minChunkSize = 200"

text \<open>The local variables of \<open>chunkDocument\<close>.\<close>

record chunker =
  chunks :: "ChunkData list"
  currentChunk :: string
  currentLineStart :: int
  currentLineCount :: int
  chunkIndex :: nat

definition chunkerInit :: chunker where
  "chunkerInit = \<lparr> chunks = [], currentChunk = [], currentLineStart = 1,
     currentLineCount = 0, chunkIndex = 0 \<rparr>"

text \<open>One iteration of \<open>for (const paragraph of paragraphs)\<close>.\<close>

definition chunkStep ::
  "(string \<Rightarrow> string) \<Rightarrow> string \<Rightarrow> chunker \<Rightarrow> string \<Rightarrow> chunker" where
  "chunkStep resolve filePath st paragraph =
     (let trimmedPara = trim paragraph in
      if trimmedPara = [] then st
      else
        let paraLineCount = int (length (splitOn nl trimmedPara)) in
        if length (currentChunk st) > 0
           \<and> length (currentChunk st) + length trimmedPara > maxChunkSize
           \<and> length (currentChunk st) \<ge> minChunkSize
        then
          \<lparr> chunks = chunks st @
               [createChunk resolve (currentChunk st) filePath (currentLineStart st)
                  (currentLineStart st + currentLineCount st - 1) (chunkIndex st)],
            currentChunk = trimmedPara,
            currentLineStart = currentLineStart st + currentLineCount st,
            currentLineCount = paraLineCount,
            chunkIndex = chunkIndex st + 1 \<rparr>
        else
          st \<lparr> currentChunk :=
                 (if length (currentChunk st) > 0
                  then currentChunk st @ [nl, nl] @ trimmedPara
                  else trimmedPara),
               currentLineCount := currentLineCount st + paraLineCount \<rparr>)"

definition chunkFinish ::
  "(string \<Rightarrow> string) \<Rightarrow> string \<Rightarrow> chunker \<Rightarrow> ChunkData list" where
  "chunkFinish resolve filePath st =
     (if length (currentChunk st) \<ge> minChunkSize \<or> length (chunks st) = 0
      then chunks st @
             [createChunk resolve (currentChunk st) filePath (currentLineStart st)
                (currentLineStart st + currentLineCount st - 1) (chunkIndex st)]
      else chunks st)"

definition chunkDocument ::
  "(string \<Rightarrow> string) \<Rightarrow> string \<Rightarrow> string \<Rightarrow> ChunkData list" where
  "chunkDocument resolve content filePath =
     chunkFinish resolve filePath
       (foldl (chunkStep resolve filePath) chunkerInit (splitParagraphs [] content))"

text \<open>
  The line of the source document, counted from 1, that holds the character at \<open>offset\<close>:
  the meaning of a 1-based line number, used to compare \<open>line_start\<close> with.
\<close>

definition lineAtOffset :: "string \<Rightarrow> nat \<Rightarrow> int" where
  "lineAtOffset content offset = 1 + int (length (filter (\<lambda>c. c = nl) (take offset content)))"

section \<open>The vector store (vectordb.ts)\<close>

text \<open>
  \<open>DocumentChunk\<close>: a chunk with its embedding. A row of the LanceDB table holds the same
  fields (with \<open>metadata\<close> flattened), so a stored row is a \<open>DocumentChunk\<close> too.
\<close>

record DocumentChunk = ChunkData +
  embedding :: "real list"

text \<open>
  \<open>SearchResult\<close>. JavaScript numbers are IEEE doubles; scores and distances are modelled
  as exact reals, so rounding is not modelled.
\<close>

record SearchResult =
  chunk :: DocumentChunk
  score :: real
  distance :: real

datatype error =
    FsError
  | GlobError
  | ConnectError
  | FailedToLoadModel
  | EmbeddingFailed
  | StoreError
  | DatabaseNotInitialized
  | BatchEmbeddingFailed error
  | FailedToInitialize error
  | FailedToAddChunks error
  | SearchFailed error
  | FailedToIndex string error
  | FailedToIndexDirectory string error

text \<open>
  The collaborators outside the repository, as the functions and outcomes the code sees:
  \<^item> \<open>path_resolve\<close>: \<open>path.resolve\<close>;
  \<^item> \<open>fs_readFile\<close>: \<open>fs.readFile(path, 'utf-8')\<close>, \<open>None\<close> when it rejects;
  \<^item> \<open>glob_sync pattern cwd\<close>: \<open>glob.sync\<close>, \<open>None\<close> when it throws;
  \<^item> \<open>lancedb_connect\<close>: whether \<open>mkdir\<close> and \<open>lancedb.connect\<close> succeed;
  \<^item> \<open>lancedb_tableNames\<close>: whether \<open>tableNames\<close> and \<open>openTable\<close> succeed;
  \<^item> \<open>model_load\<close>: whether the embedding model loads (\<open>EmbeddingService.initialize\<close>);
  \<^item> \<open>model_embed\<close>: the embedding that the loaded model gives a text, \<open>None\<close> when the
    inference fails;
  \<^item> \<open>table_delete_ok path\<close>: whether LanceDB carries out \<open>table.delete\<close> for the rows
    of this path;
  \<^item> \<open>table_add_ok rows\<close>: whether LanceDB carries out \<open>createTable\<close> or \<open>table.add\<close>
    of these rows;
  \<^item> \<open>table_vectorSearch q k path rows\<close>: the rows that
    \<open>table.vectorSearch(q).limit(k)[.where(...)].toArray()\<close> returns from a table holding
    \<open>rows\<close>, each with its \<open>_distance\<close> (\<open>None\<close> when the field is missing), or \<open>None\<close> when
    the query rejects.
\<close>

record world =
  path_resolve :: "string \<Rightarrow> string"
  fs_readFile :: "string \<Rightarrow> string option"
  glob_sync :: "string \<Rightarrow> string \<Rightarrow> string list option"
  lancedb_connect :: bool
  lancedb_tableNames :: bool
  model_load :: bool
  model_embed :: "string \<Rightarrow> real list option"
  table_delete_ok :: "string \<Rightarrow> bool"
  table_add_ok :: "DocumentChunk list \<Rightarrow> bool"
  table_vectorSearch ::
    "real list \<Rightarrow> int \<Rightarrow> string option \<Rightarrow> DocumentChunk list
       \<Rightarrow> (DocumentChunk \<times> real option) list option"

text \<open>
  The state of the \<open>VectorDatabase\<close> singleton: \<open>db\<close> and \<open>table\<close> say whether
  \<open>this.db\<close> and \<open>this.table\<close> are non-null; \<open>stored\<close> is the content of the table
  \<open>document_chunks\<close> in the LanceDB directory, \<open>None\<close> while the table does not exist.
\<close>

record VectorDatabase =
  db :: bool
  table :: bool
  stored :: "DocumentChunk list option"

text \<open>
  \<open>initialize\<close>: \<open>this.db\<close> is assigned as soon as the connection is open, before the
  tables are listed, so a failure of \<open>tableNames\<close> or \<open>openTable\<close> leaves \<open>this.db\<close> set.
\<close>

definition initialize :: "world \<Rightarrow> VectorDatabase \<Rightarrow> (error + unit) \<times> VectorDatabase" where
  "initialize w v =
     (if db v then (Inr (), v)
      else if \<not> lancedb_connect w then (Inl (FailedToInitialize ConnectError), v)
      else if \<not> lancedb_tableNames w
           then (Inl (FailedToInitialize StoreError), v \<lparr> db := True \<rparr>)
      else if stored v \<noteq> None then (Inr (), v \<lparr> db := True, table := True \<rparr>)
      else (Inr (), v \<lparr> db := True \<rparr>))"

text \<open>
  \<open>EmbeddingService.embed\<close> and \<open>embedBatch\<close> (embeddings.ts). Both await the loading of the
  model before their \<open>try\<close> block, so a failure to load is not wrapped; in \<open>embedBatch\<close> the
  calls of \<open>embed\<close> stand inside the \<open>try\<close>, so their failures are. The batches of 32 do not
  change the result.
\<close>

definition embed :: "world \<Rightarrow> string \<Rightarrow> error + real list" where
  "embed w t =
     (if \<not> model_load w then Inl FailedToLoadModel
      else case model_embed w t of None \<Rightarrow> Inl EmbeddingFailed | Some e \<Rightarrow> Inr e)"

fun embedAll :: "world \<Rightarrow> string list \<Rightarrow> error + real list list" where
  "embedAll w [] = Inr []"
| "embedAll w (t # ts) =
     (case embed w t of
        Inl e \<Rightarrow> Inl e
      | Inr x \<Rightarrow> (case embedAll w ts of Inl e \<Rightarrow> Inl e | Inr xs \<Rightarrow> Inr (x # xs)))"

definition embedBatch :: "world \<Rightarrow> string list \<Rightarrow> error + real list list" where
  "embedBatch w texts =
     (if \<not> model_load w then Inl FailedToLoadModel
      else case embedAll w texts of Inl e \<Rightarrow> Inl (BatchEmbeddingFailed e) | Inr xs \<Rightarrow> Inr xs)"

text \<open>
  The LanceDB calls on the table. \<open>createTable\<close> refuses a table that exists; \<open>add\<close> and
  \<open>delete\<close> need one. The filter \<open>file_path = '<path with quotes doubled>'\<close> is modelled by
  its meaning: the rows whose \<open>file_path\<close> is the path.
\<close>

definition db_createTable ::
  "world \<Rightarrow> DocumentChunk list \<Rightarrow> VectorDatabase \<Rightarrow> error + VectorDatabase" where
  "db_createTable w rows v =
     (if stored v = None \<and> table_add_ok w rows
      then Inr (v \<lparr> table := True, stored := Some rows \<rparr>)
      else Inl StoreError)"

definition table_add ::
  "world \<Rightarrow> DocumentChunk list \<Rightarrow> VectorDatabase \<Rightarrow> error + VectorDatabase" where
  "table_add w rows v =
     (case stored v of
        None \<Rightarrow> Inl StoreError
      | Some old \<Rightarrow>
          if table_add_ok w rows then Inr (v \<lparr> stored := Some (old @ rows) \<rparr>)
          else Inl StoreError)"

definition table_delete :: "world \<Rightarrow> string \<Rightarrow> VectorDatabase \<Rightarrow> error + VectorDatabase" where
  "table_delete w p v =
     (case stored v of
        None \<Rightarrow> Inl StoreError
      | Some old \<Rightarrow>
          if table_delete_ok w p
          then Inr (v \<lparr> stored := Some (filter (\<lambda>r. file_path r \<noteq> p) old) \<rparr>)
          else Inl StoreError)"

definition withEmbedding :: "ChunkData \<Rightarrow> real list \<Rightarrow> DocumentChunk" where
  "withEmbedding c e =
     \<lparr> chunk_text = chunk_text c, file_path = file_path c, line_start = line_start c,
       line_end = line_end c, chunk_index = chunk_index c, char_count = char_count c,
       embedding = e \<rparr>"

definition addChunks ::
  "world \<Rightarrow> ChunkData list \<Rightarrow> VectorDatabase \<Rightarrow> (error + unit) \<times> VectorDatabase" where
  "addChunks w cs v =
     (case initialize w v of
        (Inl e, v1) \<Rightarrow> (Inl e, v1)
      | (Inr u, v1) \<Rightarrow>
          if \<not> db v1 then (Inl DatabaseNotInitialized, v1)
          else if length cs = 0 then (Inr (), v1)
          else
            (case embedBatch w (map chunk_text cs) of
               Inl e \<Rightarrow> (Inl (FailedToAddChunks e), v1)
             | Inr embeddings \<Rightarrow>
                 let chunksWithEmbeddings = map2 withEmbedding cs embeddings in
                 if \<not> table v1
                 then (case db_createTable w chunksWithEmbeddings v1 of
                         Inl e \<Rightarrow> (Inl (FailedToAddChunks e), v1)
                       | Inr v2 \<Rightarrow> (Inr (), v2))
                 else (case table_add w chunksWithEmbeddings v1 of
                         Inl e \<Rightarrow> (Inl (FailedToAddChunks e), v1)
                       | Inr v2 \<Rightarrow> (Inr (), v2))))"

definition deleteFileChunks ::
  "world \<Rightarrow> string \<Rightarrow> VectorDatabase \<Rightarrow> (error + nat) \<times> VectorDatabase" where
  "deleteFileChunks w filePath v =
     (case initialize w v of
        (Inl e, v1) \<Rightarrow> (Inl e, v1)
      | (Inr u, v1) \<Rightarrow>
          if \<not> table v1 then (Inr 0, v1)
          else
            (let normalizedPath = path_resolve w filePath in
             case table_delete w normalizedPath v1 of
               Inl e \<Rightarrow> (Inr 0, v1)
             | Inr v2 \<Rightarrow> (Inr 1, v2)))"

text \<open>\<open>result._distance || 0\<close>\<close>

definition orZero :: "real option \<Rightarrow> real" where
  "orZero d = (case d of None \<Rightarrow> 0 | Some x \<Rightarrow> x)"

definition toResult :: "DocumentChunk \<times> real option \<Rightarrow> SearchResult" where
  "toResult row = \<lparr> chunk = fst row, score = 1 - orZero (snd row), distance = orZero (snd row) \<rparr>"

definition search ::
  "world \<Rightarrow> string \<Rightarrow> int \<Rightarrow> string option \<Rightarrow> VectorDatabase
     \<Rightarrow> (error + SearchResult list) \<times> VectorDatabase" where
  "search w query limit filePathFilter v =
     (case initialize w v of
        (Inl e, v1) \<Rightarrow> (Inl e, v1)
      | (Inr u, v1) \<Rightarrow>
          if \<not> table v1 then (Inr [], v1)
          else
            (case embed w query of
               Inl e \<Rightarrow> (Inl (SearchFailed e), v1)
             | Inr queryEmbedding \<Rightarrow>
                 (case stored v1 of
                    None \<Rightarrow> (Inl (SearchFailed StoreError), v1)
                  | Some rows \<Rightarrow>
                      let flt = (case filePathFilter of
                                   None \<Rightarrow> None
                                 | Some f \<Rightarrow> if f = [] then None else Some (path_resolve w f))
                      in (case table_vectorSearch w queryEmbedding limit flt rows of
                            None \<Rightarrow> (Inl (SearchFailed StoreError), v1)
                          | Some results \<Rightarrow> (Inr (map toResult results), v1)))))"

section \<open>Indexing (search.ts)\<close>

definition indexFile ::
  "world \<Rightarrow> string \<Rightarrow> VectorDatabase \<Rightarrow> (error + nat) \<times> VectorDatabase" where
  "indexFile w filePath v =
     (case fs_readFile w filePath of
        None \<Rightarrow> (Inl (FailedToIndex filePath FsError), v)
      | Some content \<Rightarrow>
          (case deleteFileChunks w filePath v of
             (Inl e, v1) \<Rightarrow> (Inl (FailedToIndex filePath e), v1)
           | (Inr deleted, v1) \<Rightarrow>
               let cs = chunkDocument (path_resolve w) content filePath in
               if length cs = 0 then (Inr 0, v1)
               else (case addChunks w cs v1 of
                       (Inl e, v2) \<Rightarrow> (Inl (FailedToIndex filePath e), v2)
                     | (Inr u, v2) \<Rightarrow> (Inr (length cs), v2))))"

text \<open>The result of \<open>indexDirectory\<close>.\<close>

record IndexResult =
  indexed :: nat
  failed :: "string list"

text \<open>One iteration of \<open>for (const file of files)\<close>, with its \<open>try\<close> and \<open>catch\<close>.\<close>

definition indexDirectoryStep ::
  "world \<Rightarrow> IndexResult \<times> VectorDatabase \<Rightarrow> string \<Rightarrow> IndexResult \<times> VectorDatabase" where
  "indexDirectoryStep w acc file =
     (case indexFile w file (snd acc) of
        (Inr chunkCount, v1) \<Rightarrow> ((fst acc) \<lparr> indexed := indexed (fst acc) + chunkCount \<rparr>, v1)
      | (Inl e, v1) \<Rightarrow> ((fst acc) \<lparr> failed := failed (fst acc) @ [file] \<rparr>, v1))"

definition indexDirectory ::
  "world \<Rightarrow> string \<Rightarrow> string \<Rightarrow> VectorDatabase \<Rightarrow> (error + IndexResult) \<times> VectorDatabase" where
  "indexDirectory w dirPath pattern v =
     (let normalizedDir = path_resolve w dirPath in
      case glob_sync w pattern normalizedDir of
        None \<Rightarrow> (Inl (FailedToIndexDirectory dirPath GlobError), v)
      | Some files \<Rightarrow>
          (case foldl (indexDirectoryStep w) (\<lparr> indexed = 0, failed = [] \<rparr>, v) files of
             (r, v1) \<Rightarrow> (Inr r, v1)))"

text \<open>
  What \<open>indexFile\<close> returns for each file of a pass, in order, each call starting from the
  store the call before left: the outcomes that the claim on \<open>indexDirectory\<close> speaks of.
\<close>

fun fileOutcomes :: "world \<Rightarrow> VectorDatabase \<Rightarrow> string list \<Rightarrow> (error + nat) list" where
  "fileOutcomes w v [] = []"
| "fileOutcomes w v (f # fs) =
     fst (indexFile w f v) # fileOutcomes w (snd (indexFile w f v)) fs"

text \<open>The store after \<open>indexFile\<close> has been called for each file of a list, in order.\<close>

definition storeAfterPass :: "world \<Rightarrow> VectorDatabase \<Rightarrow> string list \<Rightarrow> VectorDatabase" where
  "storeAfterPass w v files = foldl (\<lambda>s f. snd (indexFile w f s)) v files"

definition chunkCountOf :: "error + nat \<Rightarrow> nat" where
  "chunkCountOf r = (case r of Inl e \<Rightarrow> 0 | Inr n \<Rightarrow> n)"

definition failedFiles :: "string list \<Rightarrow> (error + nat) list \<Rightarrow> string list" where
  "failedFiles files outcomes = map fst (filter (\<lambda>p. isl (snd p)) (zip files outcomes))"

section \<open>Hybrid search (search.ts)\<close>

text \<open>\<open>toLowerCase\<close> on code units below 256: A to Z, and the Latin-1 capitals but the
  multiplication sign.\<close>

definition lowerChar :: "char \<Rightarrow> char" where
  "lowerChar c =
     (let n = (of_char c :: nat)
      in if (65 \<le> n \<and> n \<le> 90) \<or> (192 \<le> n \<and> n \<le> 222 \<and> n \<noteq> 215)
         then char_of (n + 32) else c)"

definition toLowerCase :: "string \<Rightarrow> string" where
  "toLowerCase s = map lowerChar s"

text \<open>
  \<open>s.split(/\s+/)\<close>: the pieces between the maximal runs of white space, the empty piece
  before a leading run and behind a trailing one included.
\<close>

function splitWhitespace :: "string \<Rightarrow> string \<Rightarrow> string list" where
  "splitWhitespace acc [] = [rev acc]"
| "splitWhitespace acc (c # rest) =
     (if isSpace c then rev acc # splitWhitespace [] (dropWhile isSpace rest)
      else splitWhitespace (c # acc) rest)"
  by pat_completeness auto

termination splitWhitespace
proof (relation "measure (\<lambda>(acc, s). length s)", simp_all)
  fix rest :: string
  have "length (dropWhile isSpace rest) \<le> length rest"
    by (rule length_dropWhile_le)
  then show "length (dropWhile isSpace rest) < Suc (length rest)" by simp
qed

text \<open>\<open>s.includes(k)\<close>, named \<open>str_includes\<close> here\<close>

fun startsWith :: "string \<Rightarrow> string \<Rightarrow> bool" where
  "startsWith s [] = True"
| "startsWith [] (k # ks) = False"
| "startsWith (c # s) (k # ks) = (c = k \<and> startsWith s ks)"

fun str_includes :: "string \<Rightarrow> string \<Rightarrow> bool" where
  "str_includes [] k = (k = [])"
| "str_includes (c # s) k = (startsWith (c # s) k \<or> str_includes s k)"

text \<open>\<open>text.slice(0, n)\<close> for an integer \<open>n\<close>: a negative \<open>n\<close> counts from the end.\<close>

definition slice0 :: "'a list \<Rightarrow> int \<Rightarrow> 'a list" where
  "slice0 xs n = (if 0 \<le> n then take (nat n) xs else take (length xs - nat (- n)) xs)"

definition keywordsOf :: "string \<Rightarrow> string list" where
  "keywordsOf query = filter (\<lambda>word. length word > 3) (splitWhitespace [] (toLowerCase query))"

text \<open>The loop over the keywords inside \<open>semanticResults.map\<close>.\<close>

definition keywordScore :: "string list \<Rightarrow> string \<Rightarrow> real" where
  "keywordScore keywords textLower =
     foldl (\<lambda>ks keyword. if str_includes textLower keyword then ks + 0.2 else ks) 0 keywords"

definition boostResult :: "string list \<Rightarrow> SearchResult \<Rightarrow> SearchResult" where
  "boostResult keywords result =
     result \<lparr> score :=
       min (score result + keywordScore keywords (toLowerCase (chunk_text (chunk result)))) 1.0 \<rparr>"

text \<open>
  \<open>boostedResults.sort((a, b) => b.score - a.score)\<close>: \<open>Array.prototype.sort\<close> is stable,
  and so is the insertion sort \<^const>\<open>sort_key\<close>; with this comparator both give the
  descending order of the scores that keeps equal scores in their order.
\<close>

definition sortByScore :: "SearchResult list \<Rightarrow> SearchResult list" where
  "sortByScore rs = sort_key (\<lambda>r. - score r) rs"

definition hybridSearch ::
  "world \<Rightarrow> string \<Rightarrow> int \<Rightarrow> bool \<Rightarrow> VectorDatabase
     \<Rightarrow> (error + SearchResult list) \<times> VectorDatabase" where
  "hybridSearch w query limit enableHybrid v =
     (case search w query (limit * 2) None v of
        (Inl e, v1) \<Rightarrow> (Inl e, v1)
      | (Inr semanticResults, v1) \<Rightarrow>
          if \<not> enableHybrid then (Inr (slice0 semanticResults limit), v1)
          else
            let keywords = keywordsOf query;
                boostedResults = map (boostResult keywords) semanticResults
            in (Inr (slice0 (sortByScore boostedResults) limit), v1))"

text \<open>
  The number of keywords of the query found in a text, each occurrence of a word in the
  query counted (what \<open>keywordScore\<close> adds up), and the number of distinct ones.
\<close>

definition matchCount :: "string list \<Rightarrow> string \<Rightarrow> nat" where
  "matchCount keywords t = length (filter (str_includes (toLowerCase t)) keywords)"

definition distinctMatchCount :: "string list \<Rightarrow> string \<Rightarrow> nat" where
  "distinctMatchCount keywords t = length (remdups (filter (str_includes (toLowerCase t)) keywords))"

text \<open>The rows of the table that belong to a path, and the others, in table order.\<close>

definition rowsOfPath :: "string \<Rightarrow> VectorDatabase \<Rightarrow> DocumentChunk list" where
  "rowsOfPath p v =
     filter (\<lambda>r. file_path r = p) (case stored v of None \<Rightarrow> [] | Some rows \<Rightarrow> rows)"

definition rowsOfOtherPaths :: "string \<Rightarrow> VectorDatabase \<Rightarrow> DocumentChunk list" where
  "rowsOfOtherPaths p v =
     filter (\<lambda>r. file_path r \<noteq> p) (case stored v of None \<Rightarrow> [] | Some rows \<Rightarrow> rows)"

text \<open>The store reports no negative distance (as the default L2 metric does).\<close>

definition nonnegDistances :: "world \<Rightarrow> bool" where
  "nonnegDistances w \<longleftrightarrow>
     (\<forall>q k f rows out c d.
        table_vectorSearch w q k f rows = Some out \<longrightarrow> (c, Some d) \<in> set out \<longrightarrow> 0 \<le> d)"

section \<open>Example stores\<close>

text \<open>
  A store for the examples: files are read from \<open>files\<close>, every text embeds, the table calls
  succeed but \<open>delete\<close>, which succeeds when \<open>deleteOk\<close>; a vector search returns the first
  \<open>k\<close> stored rows, each with the distance that \<open>dists\<close> gives its text.
\<close>

definition exampleWorld ::
  "(string \<times> string) list \<Rightarrow> (string \<times> real) list \<Rightarrow> bool \<Rightarrow> bool \<Rightarrow> world" where
  "exampleWorld files dists connectOk deleteOk =
     \<lparr> path_resolve = id,
       fs_readFile = map_of files,
       glob_sync = (\<lambda>pattern cwd. Some (map fst files)),
       lancedb_connect = connectOk,
       lancedb_tableNames = True,
       model_load = True,
       model_embed = (\<lambda>t. Some [real (length t)]),
       table_delete_ok = (\<lambda>p. deleteOk),
       table_add_ok = (\<lambda>rows. True),
       table_vectorSearch =
         (\<lambda>q k flt rows. Some (map (\<lambda>r. (r, map_of dists (chunk_text r))) (take (nat k) rows))) \<rparr>"

definition exampleRow :: "string \<Rightarrow> string \<Rightarrow> nat \<Rightarrow> DocumentChunk" where
  "exampleRow p t i =
     \<lparr> chunk_text = t, file_path = p, line_start = 1, line_end = 1, chunk_index = i,
       char_count = length t, embedding = [real (length t)] \<rparr>"

definition exampleDb :: "DocumentChunk list \<Rightarrow> VectorDatabase" where
  "exampleDb rows = \<lparr> db = True, table = True, stored = Some rows \<rparr>"

text \<open>The example store with a directory listing of its own.\<close>

definition exampleListing :: "(string \<times> string) list \<Rightarrow> string list \<Rightarrow> world" where
  "exampleListing files listing =
     (exampleWorld files [] True True) \<lparr> glob_sync := (\<lambda>pattern cwd. Some listing) \<rparr>"

section \<open>Auxiliary definitions for the chunker proofs\<close>

text \<open>
  What holds of every buffer and every emitted chunk: it has at most \<open>maxChunkSize\<close>
  characters, or it is one trimmed paragraph, or it is a buffer \<open>b\<close>, a separator and a trimmed
  paragraph \<open>p\<close>, where \<open>b\<close> and \<open>p\<close> together have at most \<open>maxChunkSize\<close> characters or \<open>b\<close>
  is shorter than \<open>minChunkSize\<close>.
\<close>

definition okText :: "string list \<Rightarrow> string \<Rightarrow> bool" where
  "okText paras t \<longleftrightarrow>
     length t \<le> maxChunkSize \<or>
     (\<exists>b p. p \<in> set paras \<and> trim p \<noteq> [] \<and>
        (t = trim p \<or>
         (t = b @ [nl, nl] @ trim p \<and>
          (length b + length (trim p) \<le> maxChunkSize \<or> length b < minChunkSize))))"

definition chunkerInv :: "string list \<Rightarrow> chunker \<Rightarrow> bool" where
  "chunkerInv paras st \<longleftrightarrow>
     (\<forall>c \<in> set (chunks st). okText paras (chunk_text c)) \<and>
     okText paras (currentChunk st) \<and> trim (currentChunk st) = currentChunk st"

text \<open>A paragraph of \<open>m\<close> letters, a blank line, a paragraph of \<open>n\<close> letters.\<close>

definition twoParagraphs :: "nat \<Rightarrow> nat \<Rightarrow> string" where
  "twoParagraphs m n = replicate m (CHR ''a'') @ [nl, nl] @ replicate n (CHR ''b'')"

text \<open>
  The description of the chunker that the claims are compared with: the non-empty trimmed
  paragraphs of a document in source order; a group of paragraphs joined by blank lines; the
  number of lines of a list of paragraphs; and the chunks that a list of groups gives, the
  first starting at line \<open>s\<close> with ordinal \<open>i\<close>, each next one starting behind the lines of
  the paragraphs before it.
\<close>

fun joinParagraphs :: "string list \<Rightarrow> string" where
  "joinParagraphs [] = []"
| "joinParagraphs [p] = p"
| "joinParagraphs (p # q # ps) = p @ [nl, nl] @ joinParagraphs (q # ps)"

definition paragraphsOf :: "string \<Rightarrow> string list" where
  "paragraphsOf content = filter (\<lambda>p. p \<noteq> []) (map trim (splitParagraphs [] content))"

definition paragraphLines :: "string list \<Rightarrow> int" where
  "paragraphLines ps = sum_list (map (\<lambda>p. int (length (splitOn nl p))) ps)"

fun groupChunks ::
  "(string \<Rightarrow> string) \<Rightarrow> string \<Rightarrow> int \<Rightarrow> nat \<Rightarrow> string list list \<Rightarrow> ChunkData list" where
  "groupChunks resolve filePath s i [] = []"
| "groupChunks resolve filePath s i (g # gs) =
     \<lparr> chunk_text = joinParagraphs g, file_path = resolve filePath, line_start = s,
       line_end = s + paragraphLines g - 1, chunk_index = i,
       char_count = length (joinParagraphs g) \<rparr>
     # groupChunks resolve filePath (s + paragraphLines g) (Suc i) gs"

text \<open>A non-empty string with no white space at either end.\<close>

definition trimmed :: "string \<Rightarrow> bool" where
  "trimmed s \<longleftrightarrow> s \<noteq> [] \<and> \<not> isSpace (hd s) \<and> \<not> isSpace (last s)"

text \<open>The state of the loop after the paragraphs \<open>ps\<close>: the emitted chunks are the groups,
  the buffer is the tail.\<close>

definition groupsInv ::
  "(string \<Rightarrow> string) \<Rightarrow> string \<Rightarrow> string list \<Rightarrow> string list list \<Rightarrow> string list
     \<Rightarrow> chunker \<Rightarrow> bool" where
  "groupsInv resolve filePath ps groups tail st \<longleftrightarrow>
     concat groups @ tail = ps \<and> [] \<notin> set groups \<and> (\<forall>p \<in> set tail. trimmed p) \<and>
     chunks st = groupChunks resolve filePath 1 0 groups \<and>
     currentChunk st = joinParagraphs tail \<and>
     currentLineStart st = 1 + paragraphLines (concat groups) \<and>
     currentLineCount st = paragraphLines tail \<and>
     chunkIndex st = length groups"

section \<open>Properties of the string functions\<close>

lemma isSpace_nl: "isSpace nl"
  by (simp add: isSpace_def nl_def)

lemma trim_id:
  assumes "s = [] \<or> (\<not> isSpace (hd s) \<and> \<not> isSpace (last s))"
  shows "trim s = s"
proof (cases "s = []")
  case True
  then show ?thesis by (simp add: trim_def)
next
  case False
  with assms have h: "\<not> isSpace (hd s)" and l: "\<not> isSpace (last s)" by auto
  have 1: "dropWhile isSpace s = s"
    using h by (simp add: dropWhile_eq_self_iff)
  have "hd (rev s) = last s" using False by (simp add: hd_rev)
  then have 2: "dropWhile isSpace (rev s) = rev s"
    using l by (simp add: dropWhile_eq_self_iff)
  show ?thesis by (simp add: trim_def 1 2)
qed

lemma trim_ends:
  assumes "trim s \<noteq> []"
  shows "\<not> isSpace (hd (trim s)) \<and> \<not> isSpace (last (trim s))"
proof -
  let ?ys = "dropWhile isSpace s"
  let ?zs = "dropWhile isSpace (rev ?ys)"
  have t: "trim s = rev ?zs" by (simp add: trim_def)
  with assms have zs: "?zs \<noteq> []" by simp
  have ys: "?ys \<noteq> []"
  proof
    assume e: "?ys = []"
    have "?zs = []" unfolding e by simp
    with zs show False by simp
  qed
  have hz: "\<not> isSpace (hd ?zs)" using zs by (rule hd_dropWhile)
  have "last (takeWhile isSpace (rev ?ys) @ ?zs) = last ?zs"
    using zs by (rule last_appendR)
  then have "last (rev ?ys) = last ?zs"
    by (simp only: takeWhile_dropWhile_id)
  then have "last ?zs = hd ?ys" using ys by (simp only: last_rev)
  moreover have "\<not> isSpace (hd ?ys)" using ys by (rule hd_dropWhile)
  ultimately have lz: "\<not> isSpace (last ?zs)" by simp
  show ?thesis using hz lz zs by (simp add: t hd_rev last_rev)
qed

lemma trim_trim: "trim (trim s) = trim s"
  using trim_ends [of s] by (intro trim_id) blast

lemma trim_join:
  assumes "trim a = a" "a \<noteq> []" "trim p \<noteq> []"
  shows "trim (a @ [nl, nl] @ trim p) = a @ [nl, nl] @ trim p"
proof (rule trim_id)
  have "\<not> isSpace (hd a)" using trim_ends [of a] assms by simp
  moreover have "\<not> isSpace (last (trim p))" using trim_ends [of p] assms by simp
  ultimately show "a @ [nl, nl] @ trim p = [] \<or>
      (\<not> isSpace (hd (a @ [nl, nl] @ trim p)) \<and> \<not> isSpace (last (a @ [nl, nl] @ trim p)))"
    using assms by simp
qed

lemma trim_no_space: "\<forall>c \<in> set s. \<not> isSpace c \<Longrightarrow> trim s = s"
  by (rule trim_id) (cases "s = []", simp_all)

lemma trim_all_space: "\<forall>c \<in> set s. isSpace c \<Longrightarrow> trim s = []"
proof -
  assume "\<forall>c \<in> set s. isSpace c"
  then have d: "dropWhile isSpace s = []" by (simp add: dropWhile_eq_Nil_conv)
  show ?thesis unfolding trim_def d by simp
qed

lemma splitOn_no_sep: "c \<notin> set s \<Longrightarrow> splitOn c s = [s]"
  by (induction s) auto

lemma splitOn_length: "length (splitOn c s) = Suc (length (filter (\<lambda>x. x = c) s))"
  by (induction s) auto

lemma splitParagraphs_no_nl: "nl \<notin> set s \<Longrightarrow> splitParagraphs acc s = [rev acc @ s]"
  by (induction s arbitrary: acc) auto

lemma sepEnd_nl_word: "\<not> isSpace y \<Longrightarrow> sepEnd (nl # y # ys) = Some (y # ys)"
  by (simp add: sepEnd_def isSpace_nl)

lemma splitParagraphs_blank_line:
  "nl \<notin> set p \<Longrightarrow> \<not> isSpace y \<Longrightarrow>
   splitParagraphs acc (p @ nl # nl # y # ys) = (rev acc @ p) # splitParagraphs [] (y # ys)"
  by (induction p arbitrary: acc) (auto simp: sepEnd_nl_word)

text \<open>Two runs of one letter each, separated by one blank line, are two paragraphs.\<close>

lemma splitParagraphs_two_runs:
  assumes "a \<noteq> nl" "\<not> isSpace b" "0 < n"
  shows "splitParagraphs [] (replicate m a @ [nl, nl] @ replicate n b)
         = [replicate m a, replicate n b]"
proof -
  obtain k where n: "n = Suc k" using assms(3) by (cases n) auto
  have nla: "nl \<notin> set (replicate m a)" using assms(1) by auto
  have nlb: "nl \<notin> set (replicate n b)" using assms(2) isSpace_nl by auto
  show ?thesis
    using splitParagraphs_blank_line [OF nla assms(2), of "[]" "replicate k b"]
      splitParagraphs_no_nl [OF nlb, of "[]"]
    by (simp add: n)
qed

lemma sepEnd_subset: "sepEnd rest = Some rem \<Longrightarrow> set rem \<subseteq> set rest"
proof -
  assume a: "sepEnd rest = Some rem"
  let ?ws = "takeWhile isSpace rest"
  have r: "rem = rev (takeWhile (\<lambda>c. c \<noteq> nl) (rev ?ws)) @ dropWhile isSpace rest"
    using a by (simp add: sepEnd_def Let_def split: if_splits)
  have "set (takeWhile (\<lambda>c. c \<noteq> nl) (rev ?ws)) \<subseteq> set (rev ?ws)"
    by (rule set_takeWhileD [THEN conjunct1, THEN subsetI]) 
  then have 1: "set (takeWhile (\<lambda>c. c \<noteq> nl) (rev ?ws)) \<subseteq> set rest"
    using set_takeWhileD [of _ isSpace rest] by auto
  have 2: "set (dropWhile isSpace rest) \<subseteq> set rest"
    using set_dropWhileD by fastforce
  show ?thesis unfolding r using 1 2 by simp
qed

lemma splitParagraphs_all_space:
  "\<forall>c \<in> set s. isSpace c \<Longrightarrow> \<forall>c \<in> set acc. isSpace c \<Longrightarrow>
   \<forall>p \<in> set (splitParagraphs acc s). \<forall>c \<in> set p. isSpace c"
proof (induction acc s rule: splitParagraphs.induct)
  case (1 acc)
  then show ?case by simp
next
  case (2 acc c rest)
  have sp: "isSpace c" "\<forall>x \<in> set rest. isSpace x" using 2(4) by simp_all
  show ?case
  proof (cases "c = nl")
    case False
    have "\<forall>p \<in> set (splitParagraphs (c # acc) rest). \<forall>c \<in> set p. isSpace c"
      using 2(3) [OF False] sp 2(5) by simp
    then show ?thesis using False by simp
  next
    case True
    show ?thesis
    proof (cases "sepEnd rest")
      case None
      have "\<forall>p \<in> set (splitParagraphs (c # acc) rest). \<forall>c \<in> set p. isSpace c"
        using 2(1) [OF True None] sp 2(5) by simp
      then show ?thesis using True None by simp
    next
      case (Some rem)
      have "\<forall>c \<in> set rem. isSpace c"
        using sepEnd_subset [OF Some] sp(2) by blast
      then have "\<forall>p \<in> set (splitParagraphs [] rem). \<forall>c \<in> set p. isSpace c"
        using 2(2) [OF True Some] by simp
      then show ?thesis using True Some 2(5) by simp
    qed
  qed
qed

section \<open>Properties of the chunker\<close>

lemma chunkDocument_nonempty: "chunkDocument resolve content filePath \<noteq> []"
  by (auto simp: chunkDocument_def chunkFinish_def)

lemma chunkStep_blank: "trim p = [] \<Longrightarrow> chunkStep resolve filePath st p = st"
  by (simp add: chunkStep_def)

lemma foldl_chunkStep_blank:
  "\<forall>p \<in> set ps. trim p = [] \<Longrightarrow> foldl (chunkStep resolve filePath) st ps = st"
  by (induction ps arbitrary: st) (simp_all add: chunkStep_blank)

lemma okText_short: "length t \<le> maxChunkSize \<Longrightarrow> okText paras t"
  by (simp add: okText_def)

lemma chunkerInv_init: "chunkerInv paras chunkerInit"
  by (simp add: chunkerInv_def chunkerInit_def okText_def trim_def)

lemma chunkerInv_step:
  assumes inv: "chunkerInv paras st" and p: "p \<in> set paras"
  shows "chunkerInv paras (chunkStep resolve filePath st p)"
proof (cases "trim p = []")
  case True
  then show ?thesis using inv by (simp add: chunkStep_blank)
next
  case False
  let ?b = "currentChunk st"
  have tb: "trim ?b = ?b" and okb: "okText paras ?b"
    and okc: "\<forall>c \<in> set (chunks st). okText paras (chunk_text c)"
    using inv by (simp_all add: chunkerInv_def)
  have okp: "okText paras (trim p)"
    unfolding okText_def using p False by blast
  show ?thesis
  proof (cases "length ?b > 0 \<and> length ?b + length (trim p) > maxChunkSize
                 \<and> length ?b \<ge> minChunkSize")
    case True
    then have "chunkStep resolve filePath st p =
        \<lparr> chunks = chunks st @
               [createChunk resolve ?b filePath (currentLineStart st)
                  (currentLineStart st + currentLineCount st - 1) (chunkIndex st)],
          currentChunk = trim p,
          currentLineStart = currentLineStart st + currentLineCount st,
          currentLineCount = int (length (splitOn nl (trim p))),
          chunkIndex = chunkIndex st + 1 \<rparr>"
      using False by (simp add: chunkStep_def Let_def)
    then show ?thesis
      using okc okb okp tb by (simp add: chunkerInv_def createChunk_def trim_trim)
  next
    case flush: False
    show ?thesis
    proof (cases "?b = []")
      case True
      then have "chunkStep resolve filePath st p =
          st \<lparr> currentChunk := trim p,
               currentLineCount := currentLineCount st + int (length (splitOn nl (trim p))) \<rparr>"
        using False by (simp add: chunkStep_def Let_def)
      then show ?thesis using okc okp by (simp add: chunkerInv_def trim_trim)
    next
      case ne: False
      then have eq: "chunkStep resolve filePath st p =
          st \<lparr> currentChunk := ?b @ [nl, nl] @ trim p,
               currentLineCount := currentLineCount st + int (length (splitOn nl (trim p))) \<rparr>"
        using False flush by (auto simp: chunkStep_def Let_def)
      from flush ne have "length ?b + length (trim p) \<le> maxChunkSize \<or> length ?b < minChunkSize"
        by auto
      then have "okText paras (?b @ [nl, nl] @ trim p)"
        using p False unfolding okText_def by blast
      moreover have "trim (?b @ [nl, nl] @ trim p) = ?b @ [nl, nl] @ trim p"
        using tb ne False by (rule trim_join)
      ultimately show ?thesis using okc by (simp add: eq chunkerInv_def)
    qed
  qed
qed

lemma chunkerInv_foldl:
  "chunkerInv paras st \<Longrightarrow> set ps \<subseteq> set paras \<Longrightarrow>
   chunkerInv paras (foldl (chunkStep resolve filePath) st ps)"
  by (induction ps arbitrary: st) (simp_all add: chunkerInv_step)

lemma chunkFinish_okText:
  assumes "chunkerInv paras st" "c \<in> set (chunkFinish resolve filePath st)"
  shows "okText paras (chunk_text c)"
  using assms
  by (auto simp: chunkFinish_def chunkerInv_def createChunk_def split: if_splits)

lemma trim_replicate: "\<not> isSpace a \<Longrightarrow> trim (replicate n a) = replicate n a"
  by (rule trim_no_space) simp

lemma splitOn_replicate: "a \<noteq> c \<Longrightarrow> splitOn c (replicate n a) = [replicate n a]"
  by (rule splitOn_no_sep) auto

lemma chunkDocument_paragraphs:
  "splitParagraphs [] content = paras \<Longrightarrow>
   chunkDocument resolve content filePath =
     chunkFinish resolve filePath (foldl (chunkStep resolve filePath) chunkerInit paras)"
  by (simp add: chunkDocument_def)

lemma not_isSpace_a: "\<not> isSpace (CHR ''a'')"
  by (simp add: isSpace_def)

lemma not_isSpace_b: "\<not> isSpace (CHR ''b'')"
  by (simp add: isSpace_def)

lemma a_not_nl: "CHR ''a'' \<noteq> nl" "CHR ''b'' \<noteq> nl"
  by (simp_all add: nl_def)

lemma twoParagraphs_split:
  "0 < n \<Longrightarrow> splitParagraphs [] (twoParagraphs m n) = [replicate m (CHR ''a''), replicate n (CHR ''b'')]"
  unfolding twoParagraphs_def
  by (rule splitParagraphs_two_runs) (simp_all add: a_not_nl not_isSpace_b)

lemma twoParagraphs_flush:
  assumes "0 < n" "minChunkSize \<le> m" "maxChunkSize < m + n"
  shows "chunkDocument resolve (twoParagraphs m n) filePath =
    (if minChunkSize \<le> n then
     [createChunk resolve (replicate m (CHR ''a'')) filePath 1 1 0,
      createChunk resolve (replicate n (CHR ''b'')) filePath 2 2 1]
     else [createChunk resolve (replicate m (CHR ''a'')) filePath 1 1 0])"
proof -
  have m: "0 < m" using assms(2) by (simp add: minChunkSize_def)
  show ?thesis
    unfolding chunkDocument_paragraphs [OF twoParagraphs_split [OF assms(1)]]
    using assms m
    by (simp add: chunkStep_def chunkFinish_def chunkerInit_def Let_def
        trim_replicate not_isSpace_a not_isSpace_b splitOn_replicate a_not_nl)
qed

text \<open>
  Claim C4, as the code has it. The claim bounds every chunk but the last by
  \<open>maxChunkSize\<close>; the chunker never splits a paragraph and never emits a buffer shorter
  than \<open>minChunkSize\<close> inside the loop, so a chunk at any position can be longer. What holds
  of every chunk, final or not: its text has at most \<open>maxChunkSize\<close> characters, or it is a
  single trimmed paragraph, or it is a buffer \<open>b\<close>, a separator and one trimmed paragraph
  \<open>p\<close>, where \<open>b\<close> and \<open>p\<close> together have at most \<open>maxChunkSize\<close> characters or \<open>b\<close> is
  shorter than \<open>minChunkSize\<close>.
\<close>

theorem chunk_size_bound:
  assumes "c \<in> set (chunkDocument resolve content filePath)"
  shows "length (chunk_text c) \<le> maxChunkSize \<or>
     (\<exists>b p. p \<in> set (splitParagraphs [] content) \<and> trim p \<noteq> [] \<and>
        (chunk_text c = trim p \<or>
         (chunk_text c = b @ [nl, nl] @ trim p \<and>
          (length b + length (trim p) \<le> maxChunkSize \<or> length b < minChunkSize))))"
proof -
  have "chunkerInv (splitParagraphs [] content)
          (foldl (chunkStep resolve filePath) chunkerInit (splitParagraphs [] content))"
    by (rule chunkerInv_foldl [OF chunkerInv_init]) simp
  then have "okText (splitParagraphs [] content) (chunk_text c)"
    using assms unfolding chunkDocument_def by (rule chunkFinish_okText)
  then show ?thesis by (simp add: okText_def)
qed

theorem chunk_size_bound_witness:
  "createChunk id (replicate 1001 (CHR ''a'')) ''doc.md'' 1 1 0
     \<in> set (chunkDocument id (twoParagraphs 1001 200) ''doc.md'') \<and>
   (length (chunk_text (createChunk id (replicate 1001 (CHR ''a'')) ''doc.md'' 1 1 0))
      \<le> maxChunkSize \<or>
    (\<exists>b p. p \<in> set (splitParagraphs [] (twoParagraphs 1001 200)) \<and> trim p \<noteq> [] \<and>
       (chunk_text (createChunk id (replicate 1001 (CHR ''a'')) ''doc.md'' 1 1 0) = trim p \<or>
        (chunk_text (createChunk id (replicate 1001 (CHR ''a'')) ''doc.md'' 1 1 0)
           = b @ [nl, nl] @ trim p \<and>
         (length b + length (trim p) \<le> maxChunkSize \<or> length b < minChunkSize)))))"
proof -
  have m: "createChunk id (replicate 1001 (CHR ''a'')) ''doc.md'' 1 1 0
     \<in> set (chunkDocument id (twoParagraphs 1001 200) ''doc.md'')"
    by (simp add: twoParagraphs_flush minChunkSize_def maxChunkSize_def)
  show ?thesis using chunk_size_bound [OF m] m by (rule conjI [rotated])
qed

text \<open>
  Claim C4 as stated fails: a paragraph of 1001 letters, a blank line and a paragraph of 200
  letters give two chunks, and the first, which is not the final one, has 1001 characters.
\<close>

theorem chunk_size_bound_counterexample:
  "length (chunkDocument id (twoParagraphs 1001 200) ''doc.md'') = 2 \<and>
   \<not> length (chunk_text (chunkDocument id (twoParagraphs 1001 200) ''doc.md'' ! 0)) \<le> maxChunkSize"
  by (simp add: twoParagraphs_flush minChunkSize_def maxChunkSize_def createChunk_def
      trim_replicate not_isSpace_a)

lemma trimmed_trim: "trim p \<noteq> [] \<Longrightarrow> trimmed (trim p)"
  using trim_ends [of p] by (simp add: trimmed_def)

lemma trimmed_trim_id: "trimmed s \<Longrightarrow> trim s = s"
  by (rule trim_id) (simp add: trimmed_def)

lemma joinParagraphs_snoc:
  "joinParagraphs (ps @ [p]) = (if ps = [] then p else joinParagraphs ps @ [nl, nl] @ p)"
  by (induction ps rule: joinParagraphs.induct) simp_all

lemma joinParagraphs_trimmed:
  "ps \<noteq> [] \<Longrightarrow> \<forall>p \<in> set ps. trimmed p \<Longrightarrow> trimmed (joinParagraphs ps)"
proof (induction ps rule: joinParagraphs.induct)
  case 1
  then show ?case by simp
next
  case (2 p)
  then show ?case by simp
next
  case (3 p q ps)
  then have "trimmed (joinParagraphs (q # ps))" "trimmed p" by simp_all
  then show ?case by (simp add: trimmed_def)
qed

lemma joinParagraphs_Nil_iff:
  "\<forall>p \<in> set ps. trimmed p \<Longrightarrow> joinParagraphs ps = [] \<longleftrightarrow> ps = []"
  using joinParagraphs_trimmed [of ps] by (cases "ps = []") (auto simp: trimmed_def)

lemma trim_joinParagraphs:
  "\<forall>p \<in> set ps. trimmed p \<Longrightarrow> trim (joinParagraphs ps) = joinParagraphs ps"
proof (cases "ps = []")
  case True
  then show ?thesis by (simp add: trim_def)
next
  case False
  assume "\<forall>p \<in> set ps. trimmed p"
  with False have "trimmed (joinParagraphs ps)" by (rule joinParagraphs_trimmed)
  then show ?thesis by (rule trimmed_trim_id)
qed

lemma paragraphLines_append: "paragraphLines (xs @ ys) = paragraphLines xs + paragraphLines ys"
  by (simp add: paragraphLines_def)

lemma groupChunks_snoc:
  "groupChunks resolve filePath s i (gs @ [g]) =
     groupChunks resolve filePath s i gs @
     [\<lparr> chunk_text = joinParagraphs g, file_path = resolve filePath,
        line_start = s + paragraphLines (concat gs),
        line_end = s + paragraphLines (concat gs) + paragraphLines g - 1,
        chunk_index = i + length gs,
        char_count = length (joinParagraphs g) \<rparr>]"
  by (induction gs arbitrary: s i) (simp_all add: paragraphLines_append paragraphLines_def add.assoc)

lemma groupChunks_texts:
  "map chunk_text (groupChunks resolve filePath s i gs) = map joinParagraphs gs"
  by (induction gs arbitrary: s i) simp_all

lemma groupsInv_init: "groupsInv resolve filePath [] [] [] chunkerInit"
  by (simp add: groupsInv_def chunkerInit_def paragraphLines_def)

lemma groupsInv_step:
  assumes inv: "groupsInv resolve filePath ps groups tail st"
  shows "\<exists>groups' tail'.
     groupsInv resolve filePath (ps @ filter (\<lambda>p. p \<noteq> []) [trim raw]) groups' tail'
       (chunkStep resolve filePath st raw)"
proof (cases "trim raw = []")
  case True
  then show ?thesis using inv by (auto simp: chunkStep_blank)
next
  case False
  let ?p = "trim raw"
  have tp: "trimmed ?p" using False by (rule trimmed_trim)
  have cat: "concat groups @ tail = ps" and ne: "[] \<notin> set groups"
    and tt: "\<forall>p \<in> set tail. trimmed p"
    and ch: "chunks st = groupChunks resolve filePath 1 0 groups"
    and cc: "currentChunk st = joinParagraphs tail"
    and ls: "currentLineStart st = 1 + paragraphLines (concat groups)"
    and lc: "currentLineCount st = paragraphLines tail"
    and ci: "chunkIndex st = length groups"
    using inv by (simp_all add: groupsInv_def)
  have pl: "paragraphLines [?p] = int (length (splitOn nl ?p))"
    by (simp add: paragraphLines_def)
  have pls: "paragraphLines ps = paragraphLines (concat groups) + paragraphLines tail"
    unfolding cat [symmetric] by (rule paragraphLines_append)
  show ?thesis
  proof (cases "length (currentChunk st) > 0
                 \<and> length (currentChunk st) + length ?p > maxChunkSize
                 \<and> length (currentChunk st) \<ge> minChunkSize")
    case True
    then have tl: "tail \<noteq> []" using cc by auto
    have eq: "chunkStep resolve filePath st raw =
        \<lparr> chunks = chunks st @
               [createChunk resolve (currentChunk st) filePath (currentLineStart st)
                  (currentLineStart st + currentLineCount st - 1) (chunkIndex st)],
          currentChunk = ?p,
          currentLineStart = currentLineStart st + currentLineCount st,
          currentLineCount = int (length (splitOn nl ?p)),
          chunkIndex = chunkIndex st + 1 \<rparr>"
      using False True by (simp add: chunkStep_def Let_def)
    have "groupsInv resolve filePath (ps @ [?p]) (groups @ [tail]) [?p]
            (chunkStep resolve filePath st raw)"
      unfolding groupsInv_def eq
      using cat ne tt ch cc ls lc ci tp tl pl pls
      by (simp add: groupChunks_snoc createChunk_def trim_joinParagraphs paragraphLines_append)
    then show ?thesis using False by auto
  next
    case nf: False
    have eq: "chunkStep resolve filePath st raw =
        st \<lparr> currentChunk :=
               (if length (currentChunk st) > 0 then currentChunk st @ [nl, nl] @ ?p else ?p),
             currentLineCount := currentLineCount st + int (length (splitOn nl ?p)) \<rparr>"
      using False nf by (auto simp: chunkStep_def Let_def)
    have e: "currentChunk st = [] \<longleftrightarrow> tail = []"
      using cc tt by (simp add: joinParagraphs_Nil_iff)
    have "groupsInv resolve filePath (ps @ [?p]) groups (tail @ [?p])
            (chunkStep resolve filePath st raw)"
      unfolding groupsInv_def eq
      using cat ne tt ch cc ls lc ci tp pl e
      by (auto simp: joinParagraphs_snoc paragraphLines_append)
    then show ?thesis using False by auto
  qed
qed

lemma groupsInv_foldl:
  "groupsInv resolve filePath ps groups tail st \<Longrightarrow>
   \<exists>groups' tail'.
     groupsInv resolve filePath (ps @ filter (\<lambda>p. p \<noteq> []) (map trim raws)) groups' tail'
       (foldl (chunkStep resolve filePath) st raws)"
proof (induction raws arbitrary: ps groups tail st)
  case Nil
  then show ?case by auto
next
  case (Cons raw raws)
  from groupsInv_step [OF Cons.prems, of raw] obtain g1 t1 where
    "groupsInv resolve filePath (ps @ filter (\<lambda>p. p \<noteq> []) [trim raw]) g1 t1
       (chunkStep resolve filePath st raw)"
    by blast
  from Cons.IH [OF this] obtain g2 t2 where
    "groupsInv resolve filePath
       ((ps @ filter (\<lambda>p. p \<noteq> []) [trim raw]) @ filter (\<lambda>p. p \<noteq> []) (map trim raws)) g2 t2
       (foldl (chunkStep resolve filePath) (chunkStep resolve filePath st raw) raws)"
    by blast
  moreover have "(ps @ filter (\<lambda>p. p \<noteq> []) [trim raw]) @ filter (\<lambda>p. p \<noteq> []) (map trim raws)
      = ps @ filter (\<lambda>p. p \<noteq> []) (map trim (raw # raws))"
    by simp
  ultimately show ?case by (metis foldl_Cons)
qed

text \<open>What \<open>chunkDocument\<close> computes: the paragraphs are cut into consecutive groups; every
  group but the last is a chunk; the last one is a chunk when it is long enough or the only
  one.\<close>

lemma chunkDocument_groups:
  "\<exists>groups tail.
     concat groups @ tail = paragraphsOf content \<and> [] \<notin> set groups \<and>
     chunkDocument resolve content filePath =
       groupChunks resolve filePath 1 0
         (if minChunkSize \<le> length (joinParagraphs tail) \<or> groups = []
          then groups @ [tail] else groups)"
proof -
  from groupsInv_foldl [OF groupsInv_init, of resolve filePath "splitParagraphs [] content"]
  obtain groups tail where
    inv: "groupsInv resolve filePath (paragraphsOf content) groups tail
       (foldl (chunkStep resolve filePath) chunkerInit (splitParagraphs [] content))"
    by (auto simp: paragraphsOf_def)
  let ?st = "foldl (chunkStep resolve filePath) chunkerInit (splitParagraphs [] content)"
  have cat: "concat groups @ tail = paragraphsOf content" and ne: "[] \<notin> set groups"
    and tt: "\<forall>p \<in> set tail. trimmed p"
    and ch: "chunks ?st = groupChunks resolve filePath 1 0 groups"
    and cc: "currentChunk ?st = joinParagraphs tail"
    and ls: "currentLineStart ?st = 1 + paragraphLines (concat groups)"
    and lc: "currentLineCount ?st = paragraphLines tail"
    and ci: "chunkIndex ?st = length groups"
    using inv by (simp_all add: groupsInv_def)
  have g: "chunks ?st = [] \<longleftrightarrow> groups = []"
    using ch by (cases groups) simp_all
  have "chunkDocument resolve content filePath =
       groupChunks resolve filePath 1 0
         (if minChunkSize \<le> length (joinParagraphs tail) \<or> groups = []
          then groups @ [tail] else groups)"
    unfolding chunkDocument_def chunkFinish_def
    using ch cc ls lc ci tt g
    by (simp add: groupChunks_snoc createChunk_def trim_joinParagraphs)
  then show ?thesis using cat ne by blast
qed

lemma sepEnd_nonspace:
  assumes "sepEnd rest = Some rem" "\<not> isSpace c" "c \<in> set rest"
  shows "c \<in> set rem"
proof -
  let ?ws = "takeWhile isSpace rest"
  have r: "rem = rev (takeWhile (\<lambda>c. c \<noteq> nl) (rev ?ws)) @ dropWhile isSpace rest"
    using assms(1) by (simp add: sepEnd_def Let_def split: if_splits)
  have "c \<notin> set ?ws" using assms(2) by (auto dest: set_takeWhileD)
  moreover have "set rest = set ?ws \<union> set (dropWhile isSpace rest)"
    by (metis set_append takeWhile_dropWhile_id)
  ultimately have "c \<in> set (dropWhile isSpace rest)" using assms(3) by blast
  then show ?thesis by (simp add: r)
qed

lemma splitParagraphs_nonspace:
  "\<not> isSpace c \<Longrightarrow> c \<in> set acc \<union> set s \<Longrightarrow> \<exists>p \<in> set (splitParagraphs acc s). c \<in> set p"
proof (induction acc s rule: splitParagraphs.induct)
  case (1 acc)
  then show ?case by simp
next
  case (2 acc c0 rest)
  show ?case
  proof (cases "c0 = nl")
    case False
    have "\<exists>p \<in> set (splitParagraphs (c0 # acc) rest). c \<in> set p"
      using 2(3) [OF False 2(4)] 2(5) by auto
    then show ?thesis using False by simp
  next
    case True
    then have ne: "c \<noteq> c0" using 2(4) isSpace_nl by auto
    show ?thesis
    proof (cases "sepEnd rest")
      case None
      have "\<exists>p \<in> set (splitParagraphs (c0 # acc) rest). c \<in> set p"
        using 2(1) [OF True None 2(4)] 2(5) by auto
      then show ?thesis using True None by simp
    next
      case (Some rem)
      show ?thesis
      proof (cases "c \<in> set acc")
        case True
        then show ?thesis using \<open>c0 = nl\<close> Some by simp
      next
        case False
        then have "c \<in> set rest" using 2(5) ne by auto
        then have "c \<in> set rem" using sepEnd_nonspace [OF Some 2(4)] by simp
        then have "\<exists>p \<in> set (splitParagraphs [] rem). c \<in> set p"
          using 2(2) [OF True Some 2(4)] by simp
        then show ?thesis using True Some by auto
      qed
    qed
  qed
qed

lemma trim_nonspace:
  assumes "\<not> isSpace c" "c \<in> set p"
  shows "trim p \<noteq> []"
proof
  assume e: "trim p = []"
  let ?ys = "dropWhile isSpace p"
  from e have "dropWhile isSpace (rev ?ys) = []" by (simp add: trim_def)
  then have all: "\<forall>x \<in> set ?ys. isSpace x" by (simp add: dropWhile_eq_Nil_conv)
  have "?ys = []"
  proof (rule ccontr)
    assume n: "?ys \<noteq> []"
    then have "\<not> isSpace (hd ?ys)" by (rule hd_dropWhile)
    moreover have "hd ?ys \<in> set ?ys" using n by (rule hd_in_set)
    ultimately show False using all by blast
  qed
  then have "\<forall>x \<in> set p. isSpace x" by (simp add: dropWhile_eq_Nil_conv)
  then show False using assms by blast
qed

lemma paragraphsOf_nonempty:
  assumes "\<exists>c \<in> set content. \<not> isSpace c"
  shows "paragraphsOf content \<noteq> []"
proof -
  from assms obtain c where c: "c \<in> set content" "\<not> isSpace c" by blast
  from splitParagraphs_nonspace [OF c(2), of "[]" content] c(1)
  obtain p where p: "p \<in> set (splitParagraphs [] content)" "c \<in> set p" by auto
  have "trim p \<noteq> []" using c(2) p(2) by (rule trim_nonspace)
  then have "trim p \<in> set (paragraphsOf content)" using p(1) by (simp add: paragraphsOf_def)
  then show ?thesis by auto
qed

lemma paragraphsOf_no_empty: "[] \<notin> set (paragraphsOf content)"
  by (simp add: paragraphsOf_def)

lemma joinParagraphs_nonempty: "g \<noteq> [] \<Longrightarrow> [] \<notin> set g \<Longrightarrow> joinParagraphs g \<noteq> []"
  by (induction g rule: joinParagraphs.induct) simp_all

lemma joinParagraphs_contains: "p \<in> set g \<Longrightarrow> \<exists>a b. joinParagraphs g = a @ p @ b"
proof (induction g rule: joinParagraphs.induct)
  case 1
  then show ?case by simp
next
  case (2 q)
  then have "joinParagraphs [q] = [] @ p @ []" by simp
  then show ?case by blast
next
  case (3 q r ps)
  show ?case
  proof (cases "p = q")
    case True
    then have "joinParagraphs (q # r # ps) = [] @ p @ ([nl, nl] @ joinParagraphs (r # ps))" by simp
    then show ?thesis by blast
  next
    case False
    then have "p \<in> set (r # ps)" using 3(2) by simp
    from 3(1) [OF this] obtain a b where "joinParagraphs (r # ps) = a @ p @ b" by blast
    then have "joinParagraphs (q # r # ps) = (q @ [nl, nl] @ a) @ p @ b" by simp
    then show ?thesis by blast
  qed
qed

lemma startsWith_iff: "startsWith s k \<longleftrightarrow> (\<exists>b. s = k @ b)"
  by (induction s k rule: startsWith.induct) auto

lemma str_includes_iff: "str_includes s k \<longleftrightarrow> (\<exists>a b. s = a @ k @ b)"
proof (induction s)
  case Nil
  then show ?case by simp
next
  case (Cons c s)
  show ?case
  proof
    assume "str_includes (c # s) k"
    then consider "startsWith (c # s) k" | "str_includes s k" by auto
    then show "\<exists>a b. c # s = a @ k @ b"
    proof cases
      case 1
      then obtain b where "c # s = k @ b" by (auto simp: startsWith_iff)
      then have "c # s = [] @ k @ b" by simp
      then show ?thesis by blast
    next
      case 2
      then obtain a b where "s = a @ k @ b" using Cons.IH by blast
      then have "c # s = (c # a) @ k @ b" by simp
      then show ?thesis by blast
    qed
  next
    assume "\<exists>a b. c # s = a @ k @ b"
    then obtain a b where ab: "c # s = a @ k @ b" by blast
    show "str_includes (c # s) k"
    proof (cases a)
      case Nil
      then have "startsWith (c # s) k" using ab by (simp add: startsWith_iff)
      then show ?thesis by simp
    next
      case (Cons x a')
      then have "s = a' @ k @ b" using ab by simp
      then have "str_includes s k" using Cons.IH by blast
      then show ?thesis by simp
    qed
  qed
qed

text \<open>
  Claim C1, as the code has it. A document with a character that is not white space gives
  at least one chunk, and no chunk has an empty text. The chunk texts are consecutive groups
  of the document's non-empty trimmed paragraphs, in source order, each group joined by
  blank lines; the groups are followed by the trailing buffer \<open>tail\<close>, which is emitted as the
  final chunk when it has at least \<open>minChunkSize\<close> characters or no chunk precedes it, and
  then every paragraph is a substring of some chunk's text. The claim has it emitted always.
\<close>

theorem chunk_coverage:
  assumes "\<exists>c \<in> set content. \<not> isSpace c"
  shows "chunkDocument resolve content filePath \<noteq> [] \<and>
    (\<forall>c \<in> set (chunkDocument resolve content filePath). chunk_text c \<noteq> []) \<and>
    (\<exists>groups tail.
       concat groups @ tail = paragraphsOf content \<and>
       map chunk_text (chunkDocument resolve content filePath) =
         (if minChunkSize \<le> length (joinParagraphs tail) \<or> groups = []
          then map joinParagraphs (groups @ [tail]) else map joinParagraphs groups) \<and>
       (minChunkSize \<le> length (joinParagraphs tail) \<or> groups = [] \<longrightarrow>
          (\<forall>p \<in> set (paragraphsOf content).
             \<exists>c \<in> set (chunkDocument resolve content filePath). str_includes (chunk_text c) p)))"
proof -
  let ?cs = "chunkDocument resolve content filePath"
  from chunkDocument_groups [of content resolve filePath] obtain groups tail where
    cat: "concat groups @ tail = paragraphsOf content" and ne: "[] \<notin> set groups" and
    eq: "?cs = groupChunks resolve filePath 1 0
           (if minChunkSize \<le> length (joinParagraphs tail) \<or> groups = []
            then groups @ [tail] else groups)"
    by blast
  let ?emit = "minChunkSize \<le> length (joinParagraphs tail) \<or> groups = []"
  let ?gs = "if ?emit then groups @ [tail] else groups"
  have texts: "map chunk_text ?cs = map joinParagraphs ?gs"
    unfolding eq by (rule groupChunks_texts)
  have pne: "paragraphsOf content \<noteq> []" using assms by (rule paragraphsOf_nonempty)
  have noe: "[] \<notin> set (concat groups @ tail)"
    unfolding cat by (rule paragraphsOf_no_empty)
  have tailne: "?emit \<Longrightarrow> tail \<noteq> []"
  proof
    assume e: ?emit and t: "tail = []"
    then have "groups = []" by (simp add: minChunkSize_def)
    then show False using t cat pne by simp
  qed
  have gne: "\<forall>g \<in> set ?gs. g \<noteq> [] \<and> [] \<notin> set g"
    using ne noe tailne by auto
  have nonempty: "\<forall>c \<in> set ?cs. chunk_text c \<noteq> []"
  proof
    fix c assume "c \<in> set ?cs"
    then have "chunk_text c \<in> set (map joinParagraphs ?gs)"
      using texts by (metis imageI set_map)
    then obtain g where "g \<in> set ?gs" "chunk_text c = joinParagraphs g" by auto
    then show "chunk_text c \<noteq> []" using gne joinParagraphs_nonempty by metis
  qed
  have cover: "?emit \<longrightarrow> (\<forall>p \<in> set (paragraphsOf content).
      \<exists>c \<in> set ?cs. str_includes (chunk_text c) p)"
  proof (intro impI ballI)
    fix p assume e: ?emit and p: "p \<in> set (paragraphsOf content)"
    then have "p \<in> set (concat (groups @ [tail]))" using cat by (metis concat_append concat.simps append_Nil2)
    then obtain g where g: "g \<in> set (groups @ [tail])" "p \<in> set g" by auto
    have "map chunk_text ?cs = map joinParagraphs (groups @ [tail])" using e texts by simp
    then have "joinParagraphs g \<in> set (map chunk_text ?cs)" using g(1) by auto
    then obtain c where c: "c \<in> set ?cs" "chunk_text c = joinParagraphs g" by auto
    from joinParagraphs_contains [OF g(2)] have "str_includes (joinParagraphs g) p"
      by (simp add: str_includes_iff)
    then have "str_includes (chunk_text c) p" using c(2) by simp
    then show "\<exists>c \<in> set ?cs. str_includes (chunk_text c) p" using c(1) by (rule bexI)
  qed
  have texts': "map chunk_text ?cs =
      (if ?emit then map joinParagraphs (groups @ [tail]) else map joinParagraphs groups)"
    using texts by (cases ?emit) simp_all
  have "?cs \<noteq> []" by (rule chunkDocument_nonempty)
  moreover have "\<exists>groups tail.
       concat groups @ tail = paragraphsOf content \<and>
       map chunk_text ?cs =
         (if minChunkSize \<le> length (joinParagraphs tail) \<or> groups = []
          then map joinParagraphs (groups @ [tail]) else map joinParagraphs groups) \<and>
       (minChunkSize \<le> length (joinParagraphs tail) \<or> groups = [] \<longrightarrow>
          (\<forall>p \<in> set (paragraphsOf content). \<exists>c \<in> set ?cs. str_includes (chunk_text c) p))"
    using cat texts' cover by blast
  ultimately show ?thesis using nonempty by blast
qed

lemma str_includes_set: "str_includes s k \<Longrightarrow> set k \<subseteq> set s"
  by (auto simp: str_includes_iff)

lemma paragraphsOf_twoParagraphs:
  "0 < m \<Longrightarrow> 0 < n \<Longrightarrow>
   paragraphsOf (twoParagraphs m n) = [replicate m (CHR ''a''), replicate n (CHR ''b'')]"
  by (simp add: paragraphsOf_def twoParagraphs_split trim_replicate not_isSpace_a not_isSpace_b)

theorem chunk_coverage_witness:
  "CHR ''T'' \<in> set ''Title\<newline>\<newline>Alpha'' \<and> \<not> isSpace (CHR ''T'') \<and>
   chunkDocument id ''Title\<newline>\<newline>Alpha'' ''doc.md'' \<noteq> [] \<and>
   paragraphsOf ''Title\<newline>\<newline>Alpha'' = [''Title'', ''Alpha''] \<and>
   map chunk_text (chunkDocument id ''Title\<newline>\<newline>Alpha'' ''doc.md'')
     = [''Title\<newline>\<newline>Alpha'']"
proof -
  have t: "CHR ''T'' \<in> set ''Title\<newline>\<newline>Alpha''" "\<not> isSpace (CHR ''T'')"
    by (simp_all add: isSpace_def)
  then have h: "\<exists>c \<in> set ''Title\<newline>\<newline>Alpha''. \<not> isSpace c" by blast
  have s: "splitParagraphs [] ''Title\<newline>\<newline>Alpha'' = [''Title'', ''Alpha'']"
    by (simp add: sepEnd_def nl_def isSpace_def)
  have p: "paragraphsOf ''Title\<newline>\<newline>Alpha'' = [''Title'', ''Alpha'']"
    unfolding paragraphsOf_def s by (simp add: trim_def isSpace_def)
  have c: "map chunk_text (chunkDocument id ''Title\<newline>\<newline>Alpha'' ''doc.md'')
      = [''Title\<newline>\<newline>Alpha'']"
    unfolding chunkDocument_def s
    by (simp add: chunkFinish_def chunkStep_def chunkerInit_def createChunk_def
        trim_def nl_def isSpace_def minChunkSize_def maxChunkSize_def Let_def)
  from chunk_coverage [OF h, of id "''doc.md''"]
  have "chunkDocument id ''Title\<newline>\<newline>Alpha'' ''doc.md'' \<noteq> []" by blast
  then show ?thesis using t p c by blast
qed

text \<open>
  Claim C1 as stated fails: a paragraph of 1000 letters, a blank line and the paragraph
  \<open>b\<close>. The first paragraph is flushed when the second arrives; the second stays in the
  buffer, which at the end is shorter than \<open>minChunkSize\<close> while a chunk exists already, so
  it is not emitted. The only chunk is the first paragraph, and \<open>b\<close> is in no chunk.
\<close>

theorem chunk_coverage_counterexample:
  "paragraphsOf (twoParagraphs 1000 1) = [replicate 1000 (CHR ''a''), ''b''] \<and>
   map chunk_text (chunkDocument id (twoParagraphs 1000 1) ''doc.md'')
     = [replicate 1000 (CHR ''a'')] \<and>
   \<not> str_includes (replicate 1000 (CHR ''a'')) ''b''"
proof -
  have 1: "paragraphsOf (twoParagraphs 1000 1) = [replicate 1000 (CHR ''a''), ''b'']"
    using paragraphsOf_twoParagraphs [of 1000 1] by simp
  have 2: "map chunk_text (chunkDocument id (twoParagraphs 1000 1) ''doc.md'')
      = [replicate 1000 (CHR ''a'')]"
    by (simp add: twoParagraphs_flush minChunkSize_def maxChunkSize_def createChunk_def
        trim_replicate not_isSpace_a)
  have 3: "\<not> str_includes (replicate 1000 (CHR ''a'')) ''b''"
    using str_includes_set [of "replicate 1000 (CHR ''a'')" "''b''"] by auto
  show ?thesis using 1 2 3 by blast
qed

lemma chunkDocument_whitespace:
  assumes "\<forall>c \<in> set content. isSpace c"
  shows "chunkDocument resolve content filePath =
     [\<lparr> chunk_text = [], file_path = resolve filePath, line_start = 1, line_end = 0,
        chunk_index = 0, char_count = 0 \<rparr>]"
proof -
  have "\<forall>p \<in> set (splitParagraphs [] content). \<forall>c \<in> set p. isSpace c"
    using assms by (rule splitParagraphs_all_space) simp
  then have "\<forall>p \<in> set (splitParagraphs [] content). trim p = []"
    by (simp add: trim_all_space)
  then have "foldl (chunkStep resolve filePath) chunkerInit (splitParagraphs [] content) = chunkerInit"
    by (rule foldl_chunkStep_blank)
  then show ?thesis
    by (simp add: chunkDocument_def chunkFinish_def chunkerInit_def createChunk_def trim_def)
qed

text \<open>
  Claim C5 (empty or white-space-only input gives no chunk) against the code: no paragraph
  is added, the buffer stays empty, and the final test \<open>chunks.length === 0\<close> holds, so
  one chunk with empty text, \<open>line_start = 1\<close> and \<open>line_end = 0\<close> is returned.
\<close>

theorem chunkDocument_empty_input:
  "chunkDocument resolve [] filePath =
     [\<lparr> chunk_text = [], file_path = resolve filePath, line_start = 1, line_end = 0,
        chunk_index = 0, char_count = 0 \<rparr>] \<and>
   chunkDocument resolve '' \<newline>\<newline>  '' filePath =
     [\<lparr> chunk_text = [], file_path = resolve filePath, line_start = 1, line_end = 0,
        chunk_index = 0, char_count = 0 \<rparr>]"
  by (simp add: chunkDocument_whitespace isSpace_def)

lemma lineAtOffset_twoParagraphs: "lineAtOffset (twoParagraphs m n) (m + 2) = 3"
  using a_not_nl by (simp add: lineAtOffset_def twoParagraphs_def)

text \<open>
  Claim C8 (\<open>line_start\<close> is the line of the chunk's first paragraph in the source document)
  against the code: \<open>currentLineStart\<close> starts at 1 and grows by the line counts of the
  paragraphs only, so blank lines are never counted. With two leading blank lines the
  paragraph \<open>foo\<close> is on line 3 and its chunk has \<open>line_start = 1\<close>; with one blank line
  between two one-line paragraphs the second chunk starts on line 3 and has
  \<open>line_start = 2\<close>.
\<close>

theorem chunkDocument_line_start_ignores_blank_lines:
  "chunkDocument resolve ''\<newline>\<newline>foo'' filePath =
     [\<lparr> chunk_text = ''foo'', file_path = resolve filePath, line_start = 1, line_end = 1,
        chunk_index = 0, char_count = 3 \<rparr>] \<and>
   lineAtOffset ''\<newline>\<newline>foo'' 2 = 3 \<and>
   map line_start (chunkDocument resolve (twoParagraphs 1000 200) filePath) = [1, 2] \<and>
   lineAtOffset (twoParagraphs 1000 200) 1002 = 3"
proof -
  have 1: "chunkDocument resolve ''\<newline>\<newline>foo'' filePath =
     [\<lparr> chunk_text = ''foo'', file_path = resolve filePath, line_start = 1, line_end = 1,
        chunk_index = 0, char_count = 3 \<rparr>]"
    by (simp add: chunkDocument_def chunkFinish_def chunkStep_def chunkerInit_def createChunk_def
      trim_def sepEnd_def nl_def isSpace_def minChunkSize_def maxChunkSize_def Let_def)
  have 2: "lineAtOffset ''\<newline>\<newline>foo'' 2 = 3"
    by (simp add: lineAtOffset_def nl_def)
  have 3: "map line_start (chunkDocument resolve (twoParagraphs 1000 200) filePath) = [1, 2]"
    by (simp add: twoParagraphs_flush minChunkSize_def maxChunkSize_def createChunk_def)
  have 4: "lineAtOffset (twoParagraphs 1000 200) 1002 = 3"
    using lineAtOffset_twoParagraphs [of 1000 200] by simp
  show ?thesis using 1 2 3 4 by blast
qed

section \<open>Properties of the hybrid search\<close>

lemma keywordScore_foldl:
  "foldl (\<lambda>ks keyword. if str_includes t keyword then ks + 0.2 else ks) a kws
   = a + 0.2 * real (length (filter (str_includes t) kws))"
  by (induction kws arbitrary: a) (simp_all add: algebra_simps)

lemma keywordScore_count:
  "keywordScore kws t = 0.2 * real (length (filter (str_includes t) kws))"
  by (simp add: keywordScore_def keywordScore_foldl)

lemma boostResult_eq:
  "boostResult kws r =
     r \<lparr> score := min (score r + 0.2 * real (matchCount kws (chunk_text (chunk r)))) 1 \<rparr>"
  by (simp add: boostResult_def keywordScore_count matchCount_def)

lemma boostResult_score:
  "score (boostResult kws r) = min (score r + 0.2 * real (matchCount kws (chunk_text (chunk r)))) 1"
  by (simp add: boostResult_eq)

lemma boostResult_fields:
  "chunk (boostResult kws r) = chunk r" "distance (boostResult kws r) = distance r"
  by (simp_all add: boostResult_eq)

lemma boostResult_le_1: "score (boostResult kws r) \<le> 1"
  by (simp add: boostResult_score)

lemma boostResult_mono: "score r \<le> 1 \<Longrightarrow> score r \<le> score (boostResult kws r)"
  by (simp add: boostResult_score)


lemma slice0_take: "\<exists>m. slice0 xs n = take m xs"
  by (auto simp: slice0_def)

lemma slice0_length: "0 \<le> n \<Longrightarrow> length (slice0 xs n) = min (nat n) (length xs)"
  by (simp add: slice0_def min.commute)

lemma slice0_subset: "set (slice0 xs n) \<subseteq> set xs"
  using slice0_take [of xs n] by (auto dest: in_set_takeD)

lemma sortByScore_set: "set (sortByScore rs) = set rs"
  by (simp add: sortByScore_def)

lemma sortByScore_length: "length (sortByScore rs) = length rs"
  by (simp add: sortByScore_def)

lemma sortByScore_sorted: "sorted (map (\<lambda>r. - score r) (sortByScore rs))"
  by (simp add: sortByScore_def)


lemma sortByScore_stable:
  "filter (\<lambda>r. score r = s) (sortByScore rs) = filter (\<lambda>r. score r = s) rs"
proof -
  have "filter (\<lambda>r. - score r = - s) (sort_key (\<lambda>r. - score r) rs)
        = filter (\<lambda>r. - score r = - s) rs"
    by (rule sort_key_stable)
  then show ?thesis by (simp add: sortByScore_def)
qed

lemma toResult_score: "score (toResult row) = 1 - distance (toResult row)"
  by (simp add: toResult_def)

lemma search_Inr:
  assumes "search w query limit flt v = (Inr rs, v1)"
  shows "rs = [] \<or> (\<exists>q k f rows out.
           table_vectorSearch w q k f rows = Some out \<and> rs = map toResult out)"
  using assms
  by (fastforce simp: search_def Let_def split: prod.splits sum.splits if_splits option.splits)

lemma search_score:
  assumes "search w query limit flt v = (Inr rs, v1)" "r \<in> set rs"
  shows "score r = 1 - distance r"
  using search_Inr [OF assms(1)] assms(2) by (auto simp: toResult_score)

lemma search_distance:
  assumes "search w query limit flt v = (Inr rs, v1)" "r \<in> set rs"
    and "\<forall>q k f rows out c d.
           table_vectorSearch w q k f rows = Some out \<longrightarrow> (c, Some d) \<in> set out \<longrightarrow> 0 \<le> d"
  shows "0 \<le> distance r"
proof -
  from search_Inr [OF assms(1)] assms(2)
  obtain q k f rows out where o: "table_vectorSearch w q k f rows = Some out"
    and rs: "rs = map toResult out" by auto
  from assms(2) rs obtain row where row: "row \<in> set out" "r = toResult row" by auto
  show ?thesis
  proof (cases "snd row")
    case None
    then show ?thesis using row by (simp add: toResult_def orZero_def)
  next
    case (Some d)
    then have "(fst row, Some d) \<in> set out" using row(1) by (metis prod.collapse)
    then have "0 \<le> d" using assms(3) o by blast
    then show ?thesis using row Some by (simp add: toResult_def orZero_def)
  qed
qed

lemma hybridSearch_Inr:
  assumes "hybridSearch w query limit h v = (Inr results, v2)"
  shows "\<exists>cands. search w query (limit * 2) None v = (Inr cands, v2) \<and>
     results = (if h then slice0 (sortByScore (map (boostResult (keywordsOf query)) cands)) limit
                else slice0 cands limit)"
  using assms
  by (auto simp: hybridSearch_def Let_def split: prod.splits sum.splits if_splits)

lemma nonnegDistances_example:
  "\<forall>p \<in> set dists. 0 \<le> snd p \<Longrightarrow> nonnegDistances (exampleWorld files dists c d)"
proof -
  assume a: "\<forall>p \<in> set dists. 0 \<le> snd p"
  have "\<And>t x. map_of dists t = Some x \<Longrightarrow> 0 \<le> x"
    using a by (fastforce dest: map_of_SomeD)
  then show ?thesis
    by (fastforce simp: nonnegDistances_def exampleWorld_def)
qed

lemma search_example:
  "search (exampleWorld files dists c d) query k None (exampleDb rows) =
     (Inr (map (\<lambda>r. \<lparr> chunk = r, score = 1 - orZero (map_of dists (chunk_text r)),
                        distance = orZero (map_of dists (chunk_text r)) \<rparr>) (take (nat k) rows)),
      exampleDb rows)"
  by (simp add: search_def initialize_def exampleDb_def exampleWorld_def embed_def toResult_def
      comp_def)

text \<open>
  Claim C3, as the code has it. The adapter computes \<open>score = 1 - distance\<close> and clamps
  nothing, so a distance above 1 gives a negative score. For a store that reports no negative
  distance, every result of \<open>hybridSearch\<close>, in either mode, has \<open>distance \<ge> 0\<close> and
  \<open>score \<le> 1\<close>, and \<open>score \<ge> 0\<close> when its distance is at most 1.
\<close>

theorem score_range:
  assumes "hybridSearch w query limit enableHybrid v = (Inr results, v2)"
    and "nonnegDistances w" and "r \<in> set results"
  shows "0 \<le> distance r \<and> score r \<le> 1 \<and> (distance r \<le> 1 \<longrightarrow> 0 \<le> score r)"
proof -
  from hybridSearch_Inr [OF assms(1)] obtain cands where
    s: "search w query (limit * 2) None v = (Inr cands, v2)" and
    res: "results = (if enableHybrid
            then slice0 (sortByScore (map (boostResult (keywordsOf query)) cands)) limit
            else slice0 cands limit)"
    by blast
  have nn: "\<forall>q k f rows out c d.
      table_vectorSearch w q k f rows = Some out \<longrightarrow> (c, Some d) \<in> set out \<longrightarrow> 0 \<le> d"
    using assms(2) by (simp add: nonnegDistances_def)
  have base: "\<And>c. c \<in> set cands \<Longrightarrow> 0 \<le> distance c \<and> score c = 1 - distance c"
    using search_distance [OF s _ nn] search_score [OF s] by blast
  show ?thesis
  proof (cases enableHybrid)
    case False
    then have "r \<in> set cands" using res assms(3) slice0_subset by fastforce
    then show ?thesis using base by fastforce
  next
    case True
    then have "r \<in> set (sortByScore (map (boostResult (keywordsOf query)) cands))"
      using res assms(3) slice0_subset by fastforce
    then obtain c where c: "c \<in> set cands" "r = boostResult (keywordsOf query) c"
      by (auto simp: sortByScore_set)
    have d: "distance r = distance c" using c(2) by (simp add: boostResult_fields)
    have "score c \<le> 1" using base [OF c(1)] by simp
    then have "score c \<le> score r" using c(2) by (simp add: boostResult_mono)
    then show ?thesis using base [OF c(1)] d c(2) boostResult_le_1 [of "keywordsOf query" c]
      by auto
  qed
qed

theorem score_range_witness:
  "hybridSearch (exampleWorld [] [(''alpha'', 1/2)] True True) ''alpha'' 10 False
      (exampleDb [exampleRow ''/a.md'' ''alpha'' 0])
     = (Inr [\<lparr> chunk = exampleRow ''/a.md'' ''alpha'' 0, score = 1/2, distance = 1/2 \<rparr>],
        exampleDb [exampleRow ''/a.md'' ''alpha'' 0]) \<and>
   0 \<le> distance \<lparr> chunk = exampleRow ''/a.md'' ''alpha'' 0, score = 1/2, distance = 1/2 \<rparr> \<and>
   score \<lparr> chunk = exampleRow ''/a.md'' ''alpha'' 0, score = 1/2, distance = 1/2 \<rparr> \<le> 1 \<and>
   0 \<le> score \<lparr> chunk = exampleRow ''/a.md'' ''alpha'' 0, score = 1/2, distance = 1/2 \<rparr>"
proof -
  let ?w = "exampleWorld [] [(''alpha'', 1/2)] True True"
  let ?v = "exampleDb [exampleRow ''/a.md'' ''alpha'' 0]"
  let ?r = "\<lparr> chunk = exampleRow ''/a.md'' ''alpha'' 0, score = 1/2, distance = 1/2 \<rparr>"
  have h: "hybridSearch ?w ''alpha'' 10 False ?v = (Inr [?r], ?v)"
    by (simp add: hybridSearch_def search_example slice0_def exampleRow_def orZero_def)
  have n: "nonnegDistances ?w"
    by (rule nonnegDistances_example) simp
  have m: "?r \<in> set [?r]" by simp
  show ?thesis using score_range [OF h n m] h by simp
qed

text \<open>
  Claim C3 as stated fails: a row at distance 2 comes back with score \<open>-1\<close>.
\<close>

theorem score_range_counterexample:
  "hybridSearch (exampleWorld [] [(''alpha'', 2)] True True) ''alpha'' 10 False
      (exampleDb [exampleRow ''/a.md'' ''alpha'' 0])
     = (Inr [\<lparr> chunk = exampleRow ''/a.md'' ''alpha'' 0, score = - 1, distance = 2 \<rparr>],
        exampleDb [exampleRow ''/a.md'' ''alpha'' 0]) \<and>
   score \<lparr> chunk = exampleRow ''/a.md'' ''alpha'' 0, score = - 1, distance = 2 \<rparr> < 0"
  by (simp add: hybridSearch_def search_example slice0_def exampleRow_def orZero_def)

lemma keywordsOf_alpha_beta: "keywordsOf ''alpha beta'' = [''alpha'', ''beta'']"
  by (simp add: keywordsOf_def toLowerCase_def lowerChar_def isSpace_def)

lemma keywordsOf_test_test: "keywordsOf ''test test'' = [''test'', ''test'']"
  by (simp add: keywordsOf_def toLowerCase_def lowerChar_def isSpace_def)

lemma toLowerCase_examples:
  "toLowerCase ''alpha'' = ''alpha''" "toLowerCase ''alpha beta'' = ''alpha beta''"
  "toLowerCase ''test'' = ''test''"
  by (simp_all add: toLowerCase_def lowerChar_def)


lemma descending_take:
  "sorted (map (\<lambda>r. - score r) rs) \<Longrightarrow> sorted (rev (map score (take m rs)))"
proof -
  assume "sorted (map (\<lambda>r. - score r) rs)"
  then have "sorted_wrt (\<lambda>x y. score y \<le> score x) rs"
    by (simp add: sorted_wrt_map)
  then have "sorted_wrt (\<lambda>x y. score y \<le> score x) (take m rs)"
    by (rule sorted_wrt_take)
  then show ?thesis
    by (simp add: sorted_wrt_rev sorted_wrt_map)
qed

lemma descending_split:
  assumes "sorted (map (\<lambda>r. - score r) rs)"
  shows "\<forall>r \<in> set (take m rs). \<forall>x \<in> set (drop m rs). score x \<le> score r"
proof -
  have "sorted_wrt (\<lambda>x y. score y \<le> score x) rs"
    using assms by (simp add: sorted_wrt_map)
  then have "sorted_wrt (\<lambda>x y. score y \<le> score x) (take m rs @ drop m rs)"
    by simp
  then show ?thesis
    unfolding sorted_wrt_append by blast
qed

text \<open>
  Claim C7, as the code has it. For a limit \<open>\<ge> 0\<close>, \<open>hybridSearch\<close> returns at most \<open>limit\<close>
  results in either mode: as many as the vector search, asked for \<open>limit * 2\<close>, gave
  candidates, up to \<open>limit\<close>. With hybrid mode off the results are the first \<open>limit\<close>
  candidates, unchanged. With hybrid mode on the results are in descending order of score,
  each is a candidate with its score replaced by \<open>min (base + 0.2 * k) 1\<close>, where \<open>k\<close> counts
  the keywords of the query found in the lower-cased text, a word that occurs twice in the
  query counted twice, and the candidates left out score no higher than any result. The
  claim counts distinct words.
\<close>

theorem hybrid_scoring:
  assumes h: "hybridSearch w query limit enableHybrid v = (Inr results, v2)"
    and l: "0 \<le> limit"
  shows "length results \<le> nat limit \<and>
     (\<exists>cands. search w query (limit * 2) None v = (Inr cands, v2) \<and>
        length results = min (nat limit) (length cands) \<and>
        (\<not> enableHybrid \<longrightarrow> results = take (nat limit) cands) \<and>
        (enableHybrid \<longrightarrow>
           sorted (rev (map score results)) \<and>
           (\<forall>r \<in> set results. \<exists>c \<in> set cands.
              r = c \<lparr> score := min (score c + 0.2 * real (matchCount (keywordsOf query)
                                       (chunk_text (chunk c)))) 1 \<rparr>) \<and>
           (\<exists>rest.
              set results \<union> set rest =
                (\<lambda>c. c \<lparr> score := min (score c + 0.2 * real (matchCount (keywordsOf query)
                                       (chunk_text (chunk c)))) 1 \<rparr>) ` set cands \<and>
              length results + length rest = length cands \<and>
              (\<forall>r \<in> set results. \<forall>x \<in> set rest. score x \<le> score r))))"
proof -
  let ?K = "keywordsOf query"
  let ?b = "\<lambda>c. c \<lparr> score := min (score c + 0.2 * real (matchCount ?K (chunk_text (chunk c)))) 1 \<rparr>"
  from hybridSearch_Inr [OF h] obtain cands where
    s: "search w query (limit * 2) None v = (Inr cands, v2)" and
    res: "results = (if enableHybrid
            then slice0 (sortByScore (map (boostResult ?K) cands)) limit
            else slice0 cands limit)"
    by blast
  have len: "length results = min (nat limit) (length cands)"
    using l by (simp add: res slice0_length sortByScore_length)
  have off: "\<not> enableHybrid \<longrightarrow> results = take (nat limit) cands"
    using l by (simp add: res slice0_def)
  have on: "sorted (rev (map score results)) \<and>
      (\<forall>r \<in> set results. \<exists>c \<in> set cands. r = ?b c) \<and>
      (\<exists>rest. set results \<union> set rest = ?b ` set cands \<and>
         length results + length rest = length cands \<and>
         (\<forall>r \<in> set results. \<forall>x \<in> set rest. score x \<le> score r))"
    if e: enableHybrid
  proof -
    let ?S = "sortByScore (map (boostResult ?K) cands)"
    have r: "results = take (nat limit) ?S"
      using l e by (simp add: res slice0_def)
    have bm: "boostResult ?K = ?b"
      by (rule ext) (rule boostResult_eq)
    have srt: "sorted (rev (map score results))"
      unfolding r using sortByScore_sorted [of "map (boostResult ?K) cands"]
      by (rule descending_take)
    have "set ?S = ?b ` set cands"
      by (simp add: sortByScore_set bm)
    moreover have "set (take (nat limit) ?S) \<union> set (drop (nat limit) ?S) = set ?S"
      using set_append [of "take (nat limit) ?S" "drop (nat limit) ?S"] by simp
    ultimately have u: "set results \<union> set (drop (nat limit) ?S) = ?b ` set cands"
      unfolding r by simp
    have el: "\<forall>r \<in> set results. \<exists>c \<in> set cands. r = ?b c"
      using u by blast
    have "length (take (nat limit) ?S) + length (drop (nat limit) ?S) = length ?S"
      by simp
    then have n: "length results + length (drop (nat limit) ?S) = length cands"
      unfolding r by (simp add: sortByScore_length)
    have o: "\<forall>r \<in> set results. \<forall>x \<in> set (drop (nat limit) ?S). score x \<le> score r"
      unfolding r using sortByScore_sorted [of "map (boostResult ?K) cands"]
      by (rule descending_split)
    from u n o have "\<exists>rest. set results \<union> set rest = ?b ` set cands \<and>
         length results + length rest = length cands \<and>
         (\<forall>r \<in> set results. \<forall>x \<in> set rest. score x \<le> score r)"
      by blast
    then show ?thesis using srt el by blast
  qed
  have "length results \<le> nat limit" using len by simp
  then show ?thesis using len off on s by blast
qed

lemma hybridSearch_example:
  "hybridSearch (exampleWorld files dists c d) query limit True (exampleDb rows) =
     (Inr (slice0 (sortByScore (map (boostResult (keywordsOf query))
        (map (\<lambda>r. \<lparr> chunk = r, score = 1 - orZero (map_of dists (chunk_text r)),
                        distance = orZero (map_of dists (chunk_text r)) \<rparr>)
           (take (nat (limit * 2)) rows)))) limit),
      exampleDb rows)"
  by (simp add: hybridSearch_def search_example Let_def)

lemma matchCount_examples:
  "matchCount [''alpha'', ''beta''] ''alpha'' = 1"
  "matchCount [''alpha'', ''beta''] ''alpha beta'' = 2"
  "matchCount [''test'', ''test''] ''test'' = 2"
  "distinctMatchCount [''test'', ''test''] ''test'' = 1"
  by (simp_all add: matchCount_def distinctMatchCount_def toLowerCase_examples)

text \<open>
  Claim C7 as stated fails: for the query \<open>test test\<close> and a chunk \<open>test\<close> of base score
  0.5, the score is 0.9, not the 0.7 that one distinct keyword would give.
\<close>

theorem hybrid_scoring_counterexample:
  "hybridSearch (exampleWorld [] [(''test'', 1/2)] True True) ''test test'' 10 True
      (exampleDb [exampleRow ''/a.md'' ''test'' 0])
     = (Inr [\<lparr> chunk = exampleRow ''/a.md'' ''test'' 0, score = 9/10, distance = 1/2 \<rparr>],
        exampleDb [exampleRow ''/a.md'' ''test'' 0]) \<and>
   score \<lparr> chunk = exampleRow ''/a.md'' ''test'' 0, score = 9/10, distance = 1/2 \<rparr>
     \<noteq> min (1/2 + 0.2 * real (distinctMatchCount (keywordsOf ''test test'') ''test'')) 1"
  by (simp add: hybridSearch_example keywordsOf_test_test matchCount_examples boostResult_eq
      sortByScore_def slice0_def exampleRow_def orZero_def)

theorem hybrid_scoring_witness:
  "hybridSearch (exampleWorld [] [(''alpha'', 1/2), (''alpha beta'', 1/2)] True True)
      ''alpha beta'' 10 True
      (exampleDb [exampleRow ''/a.md'' ''alpha'' 0, exampleRow ''/a.md'' ''alpha beta'' 1])
     = (Inr [\<lparr> chunk = exampleRow ''/a.md'' ''alpha beta'' 1, score = 9/10, distance = 1/2 \<rparr>,
             \<lparr> chunk = exampleRow ''/a.md'' ''alpha'' 0, score = 7/10, distance = 1/2 \<rparr>],
        exampleDb [exampleRow ''/a.md'' ''alpha'' 0, exampleRow ''/a.md'' ''alpha beta'' 1]) \<and>
   length [\<lparr> chunk = exampleRow ''/a.md'' ''alpha beta'' 1, score = 9/10, distance = 1/2 \<rparr>,
           \<lparr> chunk = exampleRow ''/a.md'' ''alpha'' 0, score = 7/10, distance = 1/2 \<rparr>]
     \<le> nat 10 \<and>
   sorted (rev (map score
     [\<lparr> chunk = exampleRow ''/a.md'' ''alpha beta'' 1, score = 9/10, distance = 1/2 \<rparr>,
      \<lparr> chunk = exampleRow ''/a.md'' ''alpha'' 0, score = 7/10, distance = 1/2 \<rparr>])) \<and>
   hybridSearch (exampleWorld [] [(''alpha'', 1/2), (''alpha beta'', 1/2)] True True)
      ''alpha beta'' 1 False
      (exampleDb [exampleRow ''/a.md'' ''alpha'' 0, exampleRow ''/a.md'' ''alpha beta'' 1])
     = (Inr [\<lparr> chunk = exampleRow ''/a.md'' ''alpha'' 0, score = 1/2, distance = 1/2 \<rparr>],
        exampleDb [exampleRow ''/a.md'' ''alpha'' 0, exampleRow ''/a.md'' ''alpha beta'' 1]) \<and>
   length [\<lparr> chunk = exampleRow ''/a.md'' ''alpha'' 0, score = 1/2, distance = 1/2 \<rparr>]
     \<le> nat 1"
proof -
  let ?w = "exampleWorld [] [(''alpha'', 1/2), (''alpha beta'', 1/2)] True True"
  let ?v = "exampleDb [exampleRow ''/a.md'' ''alpha'' 0, exampleRow ''/a.md'' ''alpha beta'' 1]"
  let ?rs = "[\<lparr> chunk = exampleRow ''/a.md'' ''alpha beta'' 1, score = 9/10, distance = 1/2 \<rparr>,
              \<lparr> chunk = exampleRow ''/a.md'' ''alpha'' 0, score = 7/10, distance = 1/2 \<rparr>]"
  let ?os = "[\<lparr> chunk = exampleRow ''/a.md'' ''alpha'' 0, score = 1/2, distance = 1/2 \<rparr>]"
  have h: "hybridSearch ?w ''alpha beta'' 10 True ?v = (Inr ?rs, ?v)"
    by (simp add: hybridSearch_example keywordsOf_alpha_beta matchCount_examples boostResult_eq
        sortByScore_def slice0_def exampleRow_def orZero_def)
  have l: "(0::int) \<le> 10" by simp
  have g: "hybridSearch ?w ''alpha beta'' 1 False ?v = (Inr ?os, ?v)"
    by (simp add: hybridSearch_def search_example slice0_def exampleRow_def orZero_def)
  have k: "(0::int) \<le> 1" by simp
  from hybrid_scoring [OF h l] have a: "length ?rs \<le> nat 10 \<and> sorted (rev (map score ?rs))"
    by blast
  from hybrid_scoring [OF g k] have b: "length ?os \<le> nat 1"
    by blast
  show ?thesis using h g a b by blast
qed



section \<open>Properties of the store and of the indexer\<close>

lemma initialize_db: "initialize w v = (Inr u, v1) \<Longrightarrow> db v1"
  by (auto simp: initialize_def split: if_splits)

lemma initialize_stored: "initialize w v = (r, v1) \<Longrightarrow> stored v1 = stored v"
  by (auto simp: initialize_def split: if_splits)

lemma initialize_idem: "db v \<Longrightarrow> initialize w v = (Inr (), v)"
  by (simp add: initialize_def)

lemma embedAll_length: "embedAll w ts = Inr es \<Longrightarrow> length es = length ts"
  by (induction ts arbitrary: es) (auto split: sum.splits)

lemma embedBatch_length: "embedBatch w ts = Inr es \<Longrightarrow> length es = length ts"
  by (auto simp: embedBatch_def split: sum.splits if_splits dest: embedAll_length)

lemma withEmbedding_file_path: "file_path (withEmbedding c e) = file_path c"
  by (simp add: withEmbedding_def)

lemma deleteFileChunks_cases:
  assumes "initialize w v = (Inr (), v1)"
  shows "deleteFileChunks w filePath v =
     (if \<not> table v1 then (Inr 0, v1)
      else case table_delete w (path_resolve w filePath) v1 of
             Inl e \<Rightarrow> (Inr 0, v1) | Inr v2 \<Rightarrow> (Inr 1, v2))"
  unfolding deleteFileChunks_def assms by (simp add: Let_def)

lemma deleteFileChunks_db:
  "deleteFileChunks w filePath v = (Inr n, v2) \<Longrightarrow> db v2"
  by (auto simp: deleteFileChunks_def Let_def table_delete_def
      split: prod.splits sum.splits if_splits option.splits dest: initialize_db)

lemma chunkStep_file_path:
  assumes "\<forall>c \<in> set (chunks st). file_path c = resolve filePath"
  shows "\<forall>c \<in> set (chunks (chunkStep resolve filePath st p)). file_path c = resolve filePath"
  using assms by (auto simp: chunkStep_def Let_def createChunk_def)

lemma foldl_chunkStep_file_path:
  "\<forall>c \<in> set (chunks st). file_path c = resolve filePath \<Longrightarrow>
   \<forall>c \<in> set (chunks (foldl (chunkStep resolve filePath) st ps)). file_path c = resolve filePath"
proof (induction ps arbitrary: st)
  case Nil
  then show ?case by simp
next
  case (Cons p ps)
  have "\<forall>c \<in> set (chunks (chunkStep resolve filePath st p)). file_path c = resolve filePath"
    using Cons.prems by (rule chunkStep_file_path)
  then show ?case using Cons.IH by simp
qed

lemma chunkDocument_file_path:
  "c \<in> set (chunkDocument resolve content filePath) \<Longrightarrow> file_path c = resolve filePath"
proof -
  assume c: "c \<in> set (chunkDocument resolve content filePath)"
  have "\<forall>c \<in> set (chunks (foldl (chunkStep resolve filePath) chunkerInit
            (splitParagraphs [] content))). file_path c = resolve filePath"
    by (rule foldl_chunkStep_file_path) (simp add: chunkerInit_def)
  then show ?thesis
    using c by (auto simp: chunkDocument_def chunkFinish_def createChunk_def split: if_splits)
qed

lemma map2_withEmbedding_file_path:
  assumes "\<forall>c \<in> set cs. file_path c = p"
  shows "\<forall>r \<in> set (map2 withEmbedding cs es). file_path r = p"
  using assms by (auto simp: withEmbedding_file_path dest: set_zip_leftD)

lemma filter_all: "\<forall>x \<in> set xs. P x \<Longrightarrow> filter P xs = xs"
  by (induction xs) auto

lemma filter_none: "\<forall>x \<in> set xs. \<not> P x \<Longrightarrow> filter P xs = []"
  by (induction xs) auto

text \<open>What a successful \<open>addChunks\<close> of a non-empty list does to the table.\<close>

lemma addChunks_Inr:
  assumes "addChunks w cs v = (Inr u, v2)" "cs \<noteq> []" "db v"
  shows "\<exists>es. embedBatch w (map chunk_text cs) = Inr es \<and>
           table_add_ok w (map2 withEmbedding cs es) \<and>
           ((\<not> table v \<and> stored v = None \<and> stored v2 = Some (map2 withEmbedding cs es)) \<or>
            (table v \<and> (\<exists>old. stored v = Some old \<and>
                            stored v2 = Some (old @ map2 withEmbedding cs es))))"
  using assms
  by (auto simp: addChunks_def initialize_idem Let_def db_createTable_def table_add_def
      split: sum.splits if_splits option.splits)

lemma indexFile_Inr:
  assumes "indexFile w filePath v = (Inr n, v3)"
  shows "\<exists>content k v2 u.
           fs_readFile w filePath = Some content \<and>
           deleteFileChunks w filePath v = (Inr k, v2) \<and>
           addChunks w (chunkDocument (path_resolve w) content filePath) v2 = (Inr u, v3) \<and>
           n = length (chunkDocument (path_resolve w) content filePath)"
  using assms chunkDocument_nonempty
  by (auto simp: indexFile_def Let_def split: option.splits prod.splits sum.splits if_splits)

lemma indexFile_replace:
  assumes ok: "indexFile w filePath v = (Inr n, v3)"
    and del: "table_delete_ok w (path_resolve w filePath)"
  shows "\<exists>content es rows.
      fs_readFile w filePath = Some content \<and>
      embedBatch w (map chunk_text (chunkDocument (path_resolve w) content filePath)) = Inr es \<and>
      stored v3 = Some rows \<and>
      filter (\<lambda>r. file_path r = path_resolve w filePath) rows
        = map2 withEmbedding (chunkDocument (path_resolve w) content filePath) es \<and>
      filter (\<lambda>r. file_path r \<noteq> path_resolve w filePath) rows
        = filter (\<lambda>r. file_path r \<noteq> path_resolve w filePath)
            (case stored v of None \<Rightarrow> [] | Some old \<Rightarrow> old) \<and>
      n = length (chunkDocument (path_resolve w) content filePath) \<and>
      length (filter (\<lambda>r. file_path r = path_resolve w filePath) rows) = n"
proof -
  let ?p = "path_resolve w filePath"
  from indexFile_Inr [OF ok] obtain content k v2 u where
    rd: "fs_readFile w filePath = Some content" and
    dl: "deleteFileChunks w filePath v = (Inr k, v2)" and
    ad: "addChunks w (chunkDocument (path_resolve w) content filePath) v2 = (Inr u, v3)" and
    n: "n = length (chunkDocument (path_resolve w) content filePath)"
    by blast
  let ?cs = "chunkDocument (path_resolve w) content filePath"
  have ne: "?cs \<noteq> []" by (rule chunkDocument_nonempty)
  have db2: "db v2" using dl by (rule deleteFileChunks_db)
  from addChunks_Inr [OF ad ne db2] obtain es where
    es: "embedBatch w (map chunk_text ?cs) = Inr es" and
    st: "(\<not> table v2 \<and> stored v2 = None \<and> stored v3 = Some (map2 withEmbedding ?cs es)) \<or>
         (table v2 \<and> (\<exists>old. stored v2 = Some old \<and>
                          stored v3 = Some (old @ map2 withEmbedding ?cs es)))"
    by blast
  let ?new = "map2 withEmbedding ?cs es"
  have newp: "\<forall>r \<in> set ?new. file_path r = ?p"
    by (rule map2_withEmbedding_file_path) (simp add: chunkDocument_file_path)
  have len: "length ?new = n"
    using embedBatch_length [OF es] n by simp
  obtain v1 where i: "initialize w v = (Inr (), v1)"
    using dl by (cases "initialize w v") (auto simp: deleteFileChunks_def split: sum.splits)
  have sv: "stored v1 = stored v" using i by (rule initialize_stored)
  note dc = deleteFileChunks_cases [OF i, of filePath]
  have "\<exists>rows. stored v3 = Some rows \<and>
      filter (\<lambda>r. file_path r = ?p) rows = ?new \<and>
      filter (\<lambda>r. file_path r \<noteq> ?p) rows
        = filter (\<lambda>r. file_path r \<noteq> ?p) (case stored v of None \<Rightarrow> [] | Some old \<Rightarrow> old)"
  proof (cases "table v1")
    case False
    then have "v2 = v1" using dc dl by simp
    then have "stored v = None" "stored v3 = Some ?new"
      using st False sv by auto
    then show ?thesis using newp by (simp add: filter_all filter_none)
  next
    case True
    show ?thesis
    proof (cases "stored v1")
      case None
      then have "v2 = v1" using dc dl True by (simp add: table_delete_def)
      then show ?thesis using st None True by auto
    next
      case (Some old)
      then have v2: "v2 = v1 \<lparr> stored := Some (filter (\<lambda>r. file_path r \<noteq> ?p) old) \<rparr>"
        using dc dl True del by (simp add: table_delete_def)
      then have "stored v3 = Some (filter (\<lambda>r. file_path r \<noteq> ?p) old @ ?new)"
        using st True by auto
      moreover have "stored v = Some old" using sv Some by simp
      ultimately show ?thesis using newp by (simp add: filter_all filter_none)
    qed
  qed
  then show ?thesis using rd es n len by auto
qed

lemma chunkDocument_single:
  assumes "\<forall>c \<in> set s. \<not> isSpace c" "s \<noteq> []"
  shows "chunkDocument resolve s filePath =
     [\<lparr> chunk_text = s, file_path = resolve filePath, line_start = 1, line_end = 1,
        chunk_index = 0, char_count = length s \<rparr>]"
proof -
  have nl: "nl \<notin> set s" using assms(1) isSpace_nl by blast
  have t: "trim s = s" using assms(1) by (rule trim_no_space)
  show ?thesis
    using assms(2)
    by (simp add: chunkDocument_def splitParagraphs_no_nl [OF nl] chunkStep_def chunkFinish_def
        chunkerInit_def createChunk_def t Let_def splitOn_no_sep [OF nl])
qed

lemma chunkDocument_x:
  "chunkDocument resolve ''x'' filePath =
     [\<lparr> chunk_text = ''x'', file_path = resolve filePath, line_start = 1, line_end = 1,
        chunk_index = 0, char_count = 1 \<rparr>]"
  "chunkDocument resolve ''yy'' filePath =
     [\<lparr> chunk_text = ''yy'', file_path = resolve filePath, line_start = 1, line_end = 1,
        chunk_index = 0, char_count = 2 \<rparr>]"
  by (simp_all add: chunkDocument_single isSpace_def)

lemma indexFile_example:
  "indexFile (exampleWorld [(p, ''x'')] dists True delOk) p (exampleDb rows) =
     (Inr 1, exampleDb ((if delOk then filter (\<lambda>r. file_path r \<noteq> p) rows else rows)
                          @ [exampleRow p ''x'' 0]))"
  by (simp add: indexFile_def deleteFileChunks_def initialize_def table_delete_def addChunks_def
      embedBatch_def embed_def table_add_def exampleWorld_def exampleDb_def exampleRow_def
      withEmbedding_def chunkDocument_x Let_def)

text \<open>
  Claim C2, as the code has it. \<open>deleteFileChunks\<close> swallows a failure of the store's
  \<open>delete\<close>, so a successful \<open>indexFile\<close> replaces the rows of the path only when that
  deletion went through. When it does (\<open>table_delete_ok\<close>), after a successful \<open>indexFile\<close>
  the rows of the normalized path are exactly the new chunks with their embeddings, the rows
  of other paths are untouched, the returned count is the number of rows of the path (so a
  file that shrank leaves the smaller count), and indexing the unchanged file once more gives
  the same count and the same rows for the path.
\<close>

theorem indexFile_replace_semantics:
  assumes ok: "indexFile w filePath v = (Inr n, v3)"
    and del: "table_delete_ok w (path_resolve w filePath)"
  shows "\<exists>content es.
      fs_readFile w filePath = Some content \<and>
      embedBatch w (map chunk_text (chunkDocument (path_resolve w) content filePath)) = Inr es \<and>
      rowsOfPath (path_resolve w filePath) v3
        = map2 withEmbedding (chunkDocument (path_resolve w) content filePath) es \<and>
      rowsOfOtherPaths (path_resolve w filePath) v3 = rowsOfOtherPaths (path_resolve w filePath) v \<and>
      n = length (chunkDocument (path_resolve w) content filePath) \<and>
      length (rowsOfPath (path_resolve w filePath) v3) = n \<and>
      (\<forall>m v4. indexFile w filePath v3 = (Inr m, v4) \<longrightarrow>
         m = n \<and> rowsOfPath (path_resolve w filePath) v4 = rowsOfPath (path_resolve w filePath) v3)"
proof -
  let ?p = "path_resolve w filePath"
  from indexFile_replace [OF ok del] obtain content es rows where
    rd: "fs_readFile w filePath = Some content" and
    es: "embedBatch w (map chunk_text (chunkDocument (path_resolve w) content filePath)) = Inr es" and
    st: "stored v3 = Some rows" and
    f1: "filter (\<lambda>r. file_path r = ?p) rows
          = map2 withEmbedding (chunkDocument (path_resolve w) content filePath) es" and
    f2: "filter (\<lambda>r. file_path r \<noteq> ?p) rows
          = filter (\<lambda>r. file_path r \<noteq> ?p) (case stored v of None \<Rightarrow> [] | Some old \<Rightarrow> old)" and
    n: "n = length (chunkDocument (path_resolve w) content filePath)" and
    ln: "length (filter (\<lambda>r. file_path r = ?p) rows) = n"
    by blast
  have again: "\<forall>m v4. indexFile w filePath v3 = (Inr m, v4) \<longrightarrow>
      m = n \<and> rowsOfPath ?p v4 = rowsOfPath ?p v3"
  proof (intro allI impI)
    fix m v4 assume ok2: "indexFile w filePath v3 = (Inr m, v4)"
    from indexFile_replace [OF ok2 del] rd es
    obtain rows2 where "stored v4 = Some rows2"
      "filter (\<lambda>r. file_path r = ?p) rows2
         = map2 withEmbedding (chunkDocument (path_resolve w) content filePath) es"
      "m = length (chunkDocument (path_resolve w) content filePath)"
      by auto
    then show "m = n \<and> rowsOfPath ?p v4 = rowsOfPath ?p v3"
      using n st f1 by (simp add: rowsOfPath_def)
  qed
  show ?thesis
    using rd es st f1 f2 n ln again
    by (simp add: rowsOfPath_def rowsOfOtherPaths_def)
qed

theorem indexFile_replace_semantics_witness:
  "indexFile (exampleWorld [(''/a.md'', ''x'')] [] True True) ''/a.md''
      (exampleDb [exampleRow ''/a.md'' ''old one'' 0, exampleRow ''/b.md'' ''other'' 0,
                  exampleRow ''/a.md'' ''old two'' 1])
     = (Inr 1, exampleDb [exampleRow ''/b.md'' ''other'' 0, exampleRow ''/a.md'' ''x'' 0]) \<and>
   length (rowsOfPath ''/a.md''
      (exampleDb [exampleRow ''/b.md'' ''other'' 0, exampleRow ''/a.md'' ''x'' 0])) = 1 \<and>
   rowsOfOtherPaths ''/a.md''
      (exampleDb [exampleRow ''/b.md'' ''other'' 0, exampleRow ''/a.md'' ''x'' 0])
     = rowsOfOtherPaths ''/a.md''
        (exampleDb [exampleRow ''/a.md'' ''old one'' 0, exampleRow ''/b.md'' ''other'' 0,
                    exampleRow ''/a.md'' ''old two'' 1])"
proof -
  let ?w = "exampleWorld [(''/a.md'', ''x'')] [] True True"
  let ?v = "exampleDb [exampleRow ''/a.md'' ''old one'' 0, exampleRow ''/b.md'' ''other'' 0,
                       exampleRow ''/a.md'' ''old two'' 1]"
  let ?v3 = "exampleDb [exampleRow ''/b.md'' ''other'' 0, exampleRow ''/a.md'' ''x'' 0]"
  have ok: "indexFile ?w ''/a.md'' ?v = (Inr 1, ?v3)"
    by (simp add: indexFile_example) (simp add: exampleRow_def)
  have del: "table_delete_ok ?w (path_resolve ?w ''/a.md'')"
    by (simp add: exampleWorld_def)
  have p: "path_resolve ?w ''/a.md'' = ''/a.md''" by (simp add: exampleWorld_def)
  from indexFile_replace_semantics [OF ok del]
  have "length (rowsOfPath ''/a.md'' ?v3) = 1 \<and>
        rowsOfOtherPaths ''/a.md'' ?v3 = rowsOfOtherPaths ''/a.md'' ?v"
    unfolding p by blast
  then show ?thesis using ok by blast
qed

text \<open>
  Claim C2 as stated fails: when the store refuses the deletion, \<open>indexFile\<close> still succeeds
  and the stale row of the path stays beside the new one.
\<close>

theorem indexFile_replace_semantics_counterexample:
  "indexFile (exampleWorld [(''/notes.md'', ''x'')] [] True False) ''/notes.md''
      (exampleDb [exampleRow ''/notes.md'' ''stale'' 0])
     = (Inr 1, exampleDb [exampleRow ''/notes.md'' ''stale'' 0, exampleRow ''/notes.md'' ''x'' 0]) \<and>
   map chunk_text (rowsOfPath ''/notes.md''
      (exampleDb [exampleRow ''/notes.md'' ''stale'' 0, exampleRow ''/notes.md'' ''x'' 0]))
     = [''stale'', ''x'']"
  by (simp add: indexFile_example rowsOfPath_def) (simp add: exampleDb_def exampleRow_def)

lemma storeAfterPass_Cons:
  "storeAfterPass w v (f # fs) = storeAfterPass w (snd (indexFile w f v)) fs"
  by (simp add: storeAfterPass_def)

lemma storeAfterPass_Nil: "storeAfterPass w v [] = v"
  by (simp add: storeAfterPass_def)

lemma indexDirectory_loop:
  "foldl (indexDirectoryStep w) (\<lparr> indexed = n, failed = fl \<rparr>, v) files =
     (\<lparr> indexed = n + sum_list (map chunkCountOf (fileOutcomes w v files)),
        failed = fl @ failedFiles files (fileOutcomes w v files) \<rparr>,
      storeAfterPass w v files)"
proof (induction files arbitrary: n fl v)
  case Nil
  then show ?case by (simp add: failedFiles_def storeAfterPass_Nil)
next
  case (Cons f fs)
  obtain r v' where r: "indexFile w f v = (r, v')" by (cases "indexFile w f v")
  show ?case
  proof (cases r)
    case (Inl e)
    then have "indexDirectoryStep w (\<lparr> indexed = n, failed = fl \<rparr>, v) f
        = (\<lparr> indexed = n, failed = fl @ [f] \<rparr>, v')"
      using r by (simp add: indexDirectoryStep_def)
    then show ?thesis
      using Cons.IH [of n "fl @ [f]" v'] r Inl
      by (simp add: failedFiles_def chunkCountOf_def storeAfterPass_Cons)
  next
    case (Inr k)
    then have "indexDirectoryStep w (\<lparr> indexed = n, failed = fl \<rparr>, v) f
        = (\<lparr> indexed = n + k, failed = fl \<rparr>, v')"
      using r by (simp add: indexDirectoryStep_def)
    then show ?thesis
      using Cons.IH [of "n + k" fl v'] r Inr
      by (simp add: failedFiles_def chunkCountOf_def add.assoc storeAfterPass_Cons)
  qed
qed

lemma fileOutcomes_length: "length (fileOutcomes w v files) = length files"
  by (induction files arbitrary: v) simp_all

lemma fileOutcomes_nth:
  "i < length files \<Longrightarrow>
   fileOutcomes w v files ! i = fst (indexFile w (files ! i) (storeAfterPass w v (take i files)))"
proof (induction files arbitrary: v i)
  case Nil
  then show ?case by simp
next
  case (Cons f fs)
  show ?case
  proof (cases i)
    case 0
    then show ?thesis by (simp add: storeAfterPass_Nil)
  next
    case (Suc k)
    then have "k < length fs" using Cons.prems by simp
    then show ?thesis using Cons.IH [of k "snd (indexFile w f v)"] Suc
      by (simp add: storeAfterPass_Cons)
  qed
qed

text \<open>
  Claim C9. When the directory listing succeeds, \<open>indexDirectory\<close> returns a result, never an
  error. \<open>indexFile\<close> is called for every listed file in order, whatever happened to the
  files before it: the call for the file at position \<open>i\<close> starts from the store that the calls
  for the \<open>i\<close> files before it left, and the store after the pass is the one that the calls
  for all the files left. \<open>failed\<close> is the list of the files whose call failed, in order, and
  \<open>indexed\<close> is the sum of the chunk counts that the successful calls returned.
\<close>

theorem indexDirectory_isolation:
  assumes "glob_sync w pattern (path_resolve w dirPath) = Some files"
  shows "indexDirectory w dirPath pattern v =
           (Inr \<lparr> indexed = sum_list (map chunkCountOf (fileOutcomes w v files)),
                  failed = failedFiles files (fileOutcomes w v files) \<rparr>,
            storeAfterPass w v files) \<and>
         length (fileOutcomes w v files) = length files \<and>
         (\<forall>i < length files.
            fileOutcomes w v files ! i =
              fst (indexFile w (files ! i) (storeAfterPass w v (take i files))))"
proof -
  have "indexDirectory w dirPath pattern v =
           (Inr \<lparr> indexed = sum_list (map chunkCountOf (fileOutcomes w v files)),
                  failed = failedFiles files (fileOutcomes w v files) \<rparr>,
            storeAfterPass w v files)"
    using assms indexDirectory_loop [of w 0 "[]" v files]
    by (simp add: indexDirectory_def Let_def)
  then show ?thesis
    by (simp add: fileOutcomes_length fileOutcomes_nth)
qed

lemma indexFile_unreadable:
  "fs_readFile w f = None \<Longrightarrow> indexFile w f v = (Inl (FailedToIndex f FsError), v)"
  by (simp add: indexFile_def)

text \<open>The listing of the directory has no part in indexing a file.\<close>

lemma initialize_glob: "initialize (w \<lparr> glob_sync := g \<rparr>) v = initialize w v"
  by (simp add: initialize_def)

lemma embed_glob: "embed (w \<lparr> glob_sync := g \<rparr>) t = embed w t"
  by (simp add: embed_def cong: option.case_cong)

lemma embedAll_glob: "embedAll (w \<lparr> glob_sync := g \<rparr>) ts = embedAll w ts"
  by (induction ts) (simp_all only: embedAll.simps embed_glob)

lemma embedBatch_glob: "embedBatch (w \<lparr> glob_sync := g \<rparr>) ts = embedBatch w ts"
  by (simp add: embedBatch_def embedAll_glob)

lemma db_createTable_glob:
  "db_createTable (w \<lparr> glob_sync := g \<rparr>) rows v = db_createTable w rows v"
  by (simp add: db_createTable_def)

lemma table_add_glob: "table_add (w \<lparr> glob_sync := g \<rparr>) rows v = table_add w rows v"
  by (simp add: table_add_def cong: option.case_cong)

lemma table_delete_glob: "table_delete (w \<lparr> glob_sync := g \<rparr>) p v = table_delete w p v"
  by (simp add: table_delete_def cong: option.case_cong)

lemma path_resolve_glob: "path_resolve (w \<lparr> glob_sync := g \<rparr>) = path_resolve w"
  by simp

lemma fs_readFile_glob: "fs_readFile (w \<lparr> glob_sync := g \<rparr>) = fs_readFile w"
  by simp

lemma addChunks_glob: "addChunks (w \<lparr> glob_sync := g \<rparr>) cs v = addChunks w cs v"
  unfolding addChunks_def initialize_glob embedBatch_glob db_createTable_glob table_add_glob
  by (rule refl)

lemma deleteFileChunks_glob:
  "deleteFileChunks (w \<lparr> glob_sync := g \<rparr>) f v = deleteFileChunks w f v"
  unfolding deleteFileChunks_def initialize_glob table_delete_glob path_resolve_glob
  by (rule refl)

lemma indexFile_glob: "indexFile (w \<lparr> glob_sync := g \<rparr>) f v = indexFile w f v"
  unfolding indexFile_def deleteFileChunks_glob addChunks_glob path_resolve_glob fs_readFile_glob
  by (rule refl)

lemma indexFile_listing:
  "indexFile (exampleListing files listing) f v = indexFile (exampleWorld files [] True True) f v"
  by (simp add: exampleListing_def indexFile_glob)

lemma indexFile_example_two:
  "indexFile (exampleWorld [(p, ''x''), (q, ''yy'')] dists True True) p (exampleDb rows) =
     (Inr 1, exampleDb (filter (\<lambda>r. file_path r \<noteq> p) rows @ [exampleRow p ''x'' 0]))"
  "p \<noteq> q \<Longrightarrow>
   indexFile (exampleWorld [(p, ''x''), (q, ''yy'')] dists True True) q (exampleDb rows) =
     (Inr 1, exampleDb (filter (\<lambda>r. file_path r \<noteq> q) rows @ [exampleRow q ''yy'' 0]))"
  by (simp_all add: indexFile_def deleteFileChunks_def initialize_def table_delete_def
      addChunks_def embedBatch_def embed_def table_add_def exampleWorld_def exampleDb_def
      exampleRow_def withEmbedding_def chunkDocument_x Let_def)

theorem indexDirectory_isolation_witness:
  "indexDirectory
     (exampleListing [(''/a.md'', ''x''), (''/b.md'', ''yy'')] [''/a.md'', ''/gone.md'', ''/b.md''])
     ''/'' ''*.md'' (exampleDb [])
     = (Inr \<lparr> indexed = 2, failed = [''/gone.md''] \<rparr>,
        exampleDb [exampleRow ''/a.md'' ''x'' 0, exampleRow ''/b.md'' ''yy'' 0]) \<and>
   fileOutcomes
     (exampleListing [(''/a.md'', ''x''), (''/b.md'', ''yy'')] [''/a.md'', ''/gone.md'', ''/b.md''])
     (exampleDb []) [''/a.md'', ''/gone.md'', ''/b.md'']
     = [Inr 1, Inl (FailedToIndex ''/gone.md'' FsError), Inr 1]"
proof -
  let ?w = "exampleListing [(''/a.md'', ''x''), (''/b.md'', ''yy'')] [''/a.md'', ''/gone.md'', ''/b.md'']"
  let ?fs = "[''/a.md'', ''/gone.md'', ''/b.md'']"
  have g: "glob_sync ?w ''*.md'' (path_resolve ?w ''/'') = Some ?fs"
    by (simp add: exampleListing_def)
  have gone: "fs_readFile (exampleWorld [(''/a.md'', ''x''), (''/b.md'', ''yy'')] [] True True)
      ''/gone.md'' = None"
    by (simp add: exampleWorld_def)
  have o: "fileOutcomes ?w (exampleDb []) ?fs
      = [Inr 1, Inl (FailedToIndex ''/gone.md'' FsError), Inr 1]"
    by (simp add: indexFile_listing indexFile_example_two indexFile_unreadable [OF gone])
  have st: "storeAfterPass ?w (exampleDb []) ?fs
      = exampleDb [exampleRow ''/a.md'' ''x'' 0, exampleRow ''/b.md'' ''yy'' 0]"
    by (simp add: storeAfterPass_def indexFile_listing indexFile_example_two
        indexFile_unreadable [OF gone])
       (simp add: exampleRow_def)
  from indexDirectory_isolation [OF g, of "exampleDb []"] have
    "indexDirectory ?w ''/'' ''*.md'' (exampleDb []) =
       (Inr \<lparr> indexed = sum_list (map chunkCountOf (fileOutcomes ?w (exampleDb []) ?fs)),
              failed = failedFiles ?fs (fileOutcomes ?w (exampleDb []) ?fs) \<rparr>,
        storeAfterPass ?w (exampleDb []) ?fs)"
    by blast
  then have "indexDirectory ?w ''/'' ''*.md'' (exampleDb [])
      = (Inr \<lparr> indexed = 2, failed = [''/gone.md''] \<rparr>,
         exampleDb [exampleRow ''/a.md'' ''x'' 0, exampleRow ''/b.md'' ''yy'' 0])"
    unfolding o st by (simp add: chunkCountOf_def failedFiles_def)
  then show ?thesis using o by blast
qed

text \<open>
  Claim C10, as the code has it. \<open>initialize\<close> is awaited before the \<open>try\<close> block, so its
  failure does leave \<open>deleteFileChunks\<close> as an error. Once \<open>initialize\<close> has succeeded,
  \<open>deleteFileChunks\<close> returns 0 or 1 and never an error; when the store's \<open>delete\<close> fails it
  returns 0 and leaves the store as it was, and \<open>indexFile\<close> on a readable file goes on to
  chunk the content and to add the new chunks to that store: its result is the result of
  \<open>addChunks\<close>.
\<close>

theorem deleteFileChunks_swallows_delete_failure:
  assumes i: "initialize w v = (Inr (), v1)"
  shows "(\<exists>k v2. deleteFileChunks w filePath v = (Inr k, v2) \<and> k \<le> 1) \<and>
         (table v1 \<and> isl (table_delete w (path_resolve w filePath) v1) \<longrightarrow>
            deleteFileChunks w filePath v = (Inr 0, v1) \<and>
            (\<forall>content. fs_readFile w filePath = Some content \<longrightarrow>
               indexFile w filePath v =
                 (case addChunks w (chunkDocument (path_resolve w) content filePath) v1 of
                    (Inl e, v2) \<Rightarrow> (Inl (FailedToIndex filePath e), v2)
                  | (Inr u, v2) \<Rightarrow>
                      (Inr (length (chunkDocument (path_resolve w) content filePath)), v2))))"
proof (intro conjI impI allI)
  show "\<exists>k v2. deleteFileChunks w filePath v = (Inr k, v2) \<and> k \<le> 1"
    by (auto simp: deleteFileChunks_cases [OF i] split: sum.splits)
next
  assume a: "table v1 \<and> isl (table_delete w (path_resolve w filePath) v1)"
  then show d: "deleteFileChunks w filePath v = (Inr 0, v1)"
    by (auto simp: deleteFileChunks_cases [OF i] split: sum.splits)
  fix content assume "fs_readFile w filePath = Some content"
  then show "indexFile w filePath v =
      (case addChunks w (chunkDocument (path_resolve w) content filePath) v1 of
         (Inl e, v2) \<Rightarrow> (Inl (FailedToIndex filePath e), v2)
       | (Inr u, v2) \<Rightarrow>
           (Inr (length (chunkDocument (path_resolve w) content filePath)), v2))"
    using d chunkDocument_nonempty [of "path_resolve w" content filePath]
    by (simp add: indexFile_def Let_def)
qed

theorem deleteFileChunks_swallows_delete_failure_witness:
  "deleteFileChunks (exampleWorld [(''/log.md'', ''x'')] [] True False) ''/log.md''
      (exampleDb [exampleRow ''/log.md'' ''previous'' 0])
     = (Inr 0, exampleDb [exampleRow ''/log.md'' ''previous'' 0]) \<and>
   indexFile (exampleWorld [(''/log.md'', ''x'')] [] True False) ''/log.md''
      (exampleDb [exampleRow ''/log.md'' ''previous'' 0])
     = (Inr 1, exampleDb [exampleRow ''/log.md'' ''previous'' 0, exampleRow ''/log.md'' ''x'' 0])"
proof -
  let ?w = "exampleWorld [(''/log.md'', ''x'')] [] True False"
  let ?v = "exampleDb [exampleRow ''/log.md'' ''previous'' 0]"
  have i: "initialize ?w ?v = (Inr (), ?v)"
    by (simp add: initialize_def exampleDb_def)
  have t: "table ?v \<and> isl (table_delete ?w (path_resolve ?w ''/log.md'') ?v)"
    by (simp add: table_delete_def exampleDb_def exampleWorld_def)
  have r: "fs_readFile ?w ''/log.md'' = Some ''x''"
    by (simp add: exampleWorld_def)
  have a: "addChunks ?w (chunkDocument (path_resolve ?w) ''x'' ''/log.md'') ?v
      = (Inr (), exampleDb [exampleRow ''/log.md'' ''previous'' 0, exampleRow ''/log.md'' ''x'' 0])"
    by (simp add: addChunks_def initialize_def embedBatch_def embed_def table_add_def
        exampleWorld_def exampleDb_def exampleRow_def withEmbedding_def chunkDocument_x Let_def)
  from deleteFileChunks_swallows_delete_failure [OF i, of "''/log.md''"] t r
  have "deleteFileChunks ?w ''/log.md'' ?v = (Inr 0, ?v) \<and>
        indexFile ?w ''/log.md'' ?v =
          (case addChunks ?w (chunkDocument (path_resolve ?w) ''x'' ''/log.md'') ?v of
             (Inl e, v2) \<Rightarrow> (Inl (FailedToIndex ''/log.md'' e), v2)
           | (Inr u, v2) \<Rightarrow>
               (Inr (length (chunkDocument (path_resolve ?w) ''x'' ''/log.md'')), v2))"
    by blast
  then show ?thesis unfolding a by (simp add: chunkDocument_x)
qed

text \<open>
  Claim C10 as stated (\<open>deleteFileChunks\<close> never propagates an error) fails: when the
  connection cannot be opened, \<open>deleteFileChunks\<close> returns the error of \<open>initialize\<close>.
\<close>

theorem deleteFileChunks_swallows_delete_failure_counterexample:
  "deleteFileChunks (exampleWorld [] [] False True) ''/log.md''
      \<lparr> db = False, table = False, stored = None \<rparr>
     = (Inl (FailedToInitialize ConnectError), \<lparr> db = False, table = False, stored = None \<rparr>)"
  by (simp add: deleteFileChunks_def initialize_def exampleWorld_def)

end
